theory Spec2Isabelle
  imports Complex_Main "HOL-Library.AList"
begin

section \<open>Test coverage model of the workbench\<close>

text \<open>
  The development embeds two modules of the repository: the coverage model
  (\<^verbatim>\<open>TestCoverage\<close>, \<^verbatim>\<open>AbstractFileCoverage\<close>, \<^verbatim>\<open>FileCoverage\<close>) and the
  numeric helpers of the coverage bars (\<^verbatim>\<open>percent\<close>, \<^verbatim>\<open>calculateDisplayedStat\<close>,
  \<^verbatim>\<open>displayPercent\<close>).

  Numbers.  Counts are natural numbers.  The quotients the code computes are
  JavaScript doubles; here they are exact real numbers, so a statement about a
  quotient is a statement about the exact value the double approximates.
\<close>

subsection \<open>Data model\<close>

text \<open>\<^verbatim>\<open>ICoveredCount\<close>: the pair of counters of one coverage category.\<close>

record ICoveredCount =
  covered :: nat
  total :: nat

text \<open>The three components of a \<^verbatim>\<open>URI\<close> that the coverage model reads.\<close>

record URI =
  scheme :: string
  authority :: string
  path :: string

text \<open>A detail entry (\<^verbatim>\<open>CoverageDetails\<close>) is opaque to the model; entries are told apart by a number.\<close>

datatype CoverageDetails = CoverageDetails nat

text \<open>
  \<^verbatim>\<open>emptyCounts\<close> and \<^verbatim>\<open>sumCounts\<close> are imported from the module of the test
  types, which is not among the sources at hand.
\<close>

text \<open>Modelled from the spec: \<^verbatim>\<open>emptyCounts()\<close>, the zero counts an aggregate starts from.\<close>

definition emptyCounts :: ICoveredCount where
  "emptyCounts = \<lparr> covered = 0, total = 0 \<rparr>"

text \<open>
  Modelled from the spec: \<^verbatim>\<open>sumCounts(target, src)\<close>, componentwise addition of
  \<open>src\<close> into \<open>target\<close>; the result is the new content of \<open>target\<close>.
\<close>

definition sumCounts :: "ICoveredCount \<Rightarrow> ICoveredCount \<Rightarrow> ICoveredCount" where
  "sumCounts target src =
     \<lparr> covered = covered target + covered src, total = total target + total src \<rparr>"

text \<open>
  \<^verbatim>\<open>IFileCoverage\<close>: what the provider reports for one file.  The field
  \<^verbatim>\<open>function\<close> is written \<open>func\<close>.
\<close>

record IFileCoverage =
  uri :: URI
  statement :: ICoveredCount
  branch :: "ICoveredCount option"
  func :: "ICoveredCount option"
  details :: "CoverageDetails list option"

text \<open>
  \<^verbatim>\<open>AbstractFileCoverage\<close>: the fields every coverage node has.  They carry
  the source's names with the prefix \<open>n_\<close>, the plain names being those of
  \<^verbatim>\<open>IFileCoverage\<close>.
\<close>

record AbstractFileCoverage =
  n_uri :: URI
  n_statement :: ICoveredCount
  n_branch :: "ICoveredCount option"
  n_func :: "ICoveredCount option"

text \<open>
  The constructor of \<^verbatim>\<open>AbstractFileCoverage\<close>:
  \<^verbatim>\<open>this.uri = URI.revive(coverage.uri); this.statement = coverage.statement;
  this.branch = coverage.branch; this.function = coverage.branch;\<close>
\<close>

definition AbstractFileCoverage_new :: "IFileCoverage \<Rightarrow> AbstractFileCoverage" where
  "AbstractFileCoverage_new coverage =
     \<lparr> n_uri = uri coverage,
       n_statement = statement coverage,
       n_branch = branch coverage,
       n_func = branch coverage \<rparr>"

subsection \<open>Percentages\<close>

text \<open>
  The counts of the categories that are present in a node: the statement
  count, then the branch count and the function count if there are any.
\<close>

definition present_counts :: "'a AbstractFileCoverage_scheme \<Rightarrow> ICoveredCount list" where
  "present_counts c =
     n_statement c #
     (case n_branch c of None \<Rightarrow> [] | Some b \<Rightarrow> [b]) @
     (case n_func c of None \<Rightarrow> [] | Some f \<Rightarrow> [f])"


text \<open>\<^verbatim>\<open>percent = cc => cc.total === 0 ? 1 : cc.covered / cc.total\<close>\<close>

definition percent :: "ICoveredCount \<Rightarrow> real" where
  "percent cc = (if total cc = 0 then 1 else of_nat (covered cc) / of_nat (total cc))"

text \<open>The getter \<^verbatim>\<open>tpc\<close> of \<^verbatim>\<open>AbstractFileCoverage\<close>, with its two running sums.\<close>

definition tpc_numerator :: "'a AbstractFileCoverage_scheme \<Rightarrow> nat" where
  "tpc_numerator c =
     (let numerator = covered (n_statement c);
          numerator = (case n_branch c of None \<Rightarrow> numerator | Some b \<Rightarrow> numerator + covered b);
          numerator = (case n_func c of None \<Rightarrow> numerator | Some f \<Rightarrow> numerator + covered f)
      in numerator)"

definition tpc_denominator :: "'a AbstractFileCoverage_scheme \<Rightarrow> nat" where
  "tpc_denominator c =
     (let denominator = total (n_statement c);
          denominator = (case n_branch c of None \<Rightarrow> denominator | Some b \<Rightarrow> denominator + total b);
          denominator = (case n_func c of None \<Rightarrow> denominator | Some f \<Rightarrow> denominator + total f)
      in denominator)"

definition tpc :: "'a AbstractFileCoverage_scheme \<Rightarrow> real" where
  "tpc c =
     (if tpc_denominator c = 0 then 1
      else of_nat (tpc_numerator c) / of_nat (tpc_denominator c))"

text \<open>The configuration value \<^verbatim>\<open>TestingDisplayedCoveragePercent\<close>.\<close>

datatype TestingDisplayedCoveragePercent = TotalCoverage | Statement | Minimum

text \<open>
  \<^verbatim>\<open>calculateDisplayedStat\<close>.  The \<^verbatim>\<open>default\<close> branch (\<^verbatim>\<open>assertNever\<close>) is
  unreachable for a value of the enumeration.
\<close>

fun calculateDisplayedStat ::
  "'a AbstractFileCoverage_scheme \<Rightarrow> TestingDisplayedCoveragePercent \<Rightarrow> real" where
  "calculateDisplayedStat coverage Statement = percent (n_statement coverage)"
| "calculateDisplayedStat coverage Minimum =
     (let v = percent (n_statement coverage);
          v = (case n_branch coverage of None \<Rightarrow> v | Some b \<Rightarrow> min v (percent b));
          v = (case n_func coverage of None \<Rightarrow> v | Some f \<Rightarrow> min v (percent f))
      in v)"
| "calculateDisplayedStat coverage TotalCoverage = tpc coverage"

subsection \<open>Display formatting\<close>

text \<open>Decimal digits of a natural number, as \<^verbatim>\<open>ToString\<close> prints an integer.\<close>

definition digit_char :: "nat \<Rightarrow> char" where
  "digit_char d = ''0123456789'' ! d"

fun digits_of :: "nat \<Rightarrow> string" where
  "digits_of n = (if n < 10 then [digit_char n] else digits_of (n div 10) @ [digit_char (n mod 10)])"

declare digits_of.simps [simp del]

text \<open>
  \<^verbatim>\<open>Number.prototype.toFixed(f)\<close> as ECMAScript defines it for a finite number:
  a leading minus sign for a negative number; then, for an absolute value below
  \<open>10^21\<close>, the integer \<open>n\<close> nearest to \<open>x * 10^f\<close> (the larger one of two),
  printed with at least \<open>f + 1\<close> digits (zeros in front), and a point before
  the last \<open>f\<close> digits when \<open>f\<close> is not zero.  From \<open>10^21\<close> on the result is
  the exponent notation of \<^verbatim>\<open>ToString\<close>, which the model does not compute:
  \<open>None\<close>.
\<close>

definition nearest_scaled :: "real \<Rightarrow> nat \<Rightarrow> nat" where
  "nearest_scaled a f = nat \<lfloor>a * 10 ^ f + 1 / 2\<rfloor>"

definition pad_zeros :: "nat \<Rightarrow> string \<Rightarrow> string" where
  "pad_zeros f m = replicate (f + 1 - length m) (CHR ''0'') @ m"

definition place_point :: "nat \<Rightarrow> string \<Rightarrow> string" where
  "place_point f m =
     (if f \<noteq> 0
      then take (length (pad_zeros f m) - f) (pad_zeros f m) @ ''.'' @
           drop (length (pad_zeros f m) - f) (pad_zeros f m)
      else m)"

definition toFixed :: "real \<Rightarrow> nat \<Rightarrow> string option" where
  "toFixed x f =
     (if \<bar>x\<bar> \<ge> 10 ^ 21 then None
      else Some ((if x < 0 then ''-'' else []) @
                 place_point f (digits_of (nearest_scaled \<bar>x\<bar> f))))"

definition precision :: nat where
  "precision = 2"

text \<open>\<^verbatim>\<open>const epsilon = 10e-8\<close>\<close>

definition epsilon :: real where
  "epsilon = 10 / 10 ^ 8"

text \<open>
  \<^verbatim>\<open>displayPercent\<close>:
  \<^verbatim>\<open>const display = (value * 100).toFixed(precision);
  if (value < 1 - epsilon && display === '100') { return '99.99%'; }
  return `${display}%`;\<close>
\<close>

definition displayPercent :: "real \<Rightarrow> string option" where
  "displayPercent v =
     (case toFixed (v * 100) precision of
        None \<Rightarrow> None
      | Some display \<Rightarrow>
          Some (if v < 1 - epsilon \<and> display = ''100'' then ''99.99%'' else display @ ''%''))"

subsection \<open>Coverage nodes\<close>

text \<open>
  The field \<^verbatim>\<open>_details\<close> of a \<^verbatim>\<open>FileCoverage\<close> holds nothing, an array of
  detail entries, or a promise of one.  A promise is named by a number: the
  promise returned by the \<open>k\<close>-th call of the provider's resolver.
\<close>

datatype details_slot = DetailsArray "CoverageDetails list" | DetailsPromise nat

text \<open>
  \<^verbatim>\<open>FileCoverage extends AbstractFileCoverage\<close>.  The private field
  \<^verbatim>\<open>_details\<close> is written \<open>priv_details\<close>.  The third field of the class, the
  accessor, is the provider shared by all nodes of a run; its calls are
  recorded in the state of the run (below), not in the node.
\<close>

record FileCoverage = AbstractFileCoverage +
  index :: nat
  priv_details :: "details_slot option"

text \<open>
  The constructor of \<^verbatim>\<open>FileCoverage\<close>:
  \<^verbatim>\<open>super(coverage); this._details = coverage.details;\<close> with the parameter
  property \<^verbatim>\<open>index\<close>.
\<close>

definition FileCoverage_new :: "IFileCoverage \<Rightarrow> nat \<Rightarrow> FileCoverage" where
  "FileCoverage_new coverage i =
     AbstractFileCoverage.extend (AbstractFileCoverage_new coverage)
       (FileCoverage.fields i (map_option DetailsArray (details coverage)))"

text \<open>\<^verbatim>\<open>ComputedFileCoverage extends AbstractFileCoverage\<close> adds nothing.\<close>

definition ComputedFileCoverage_new :: "IFileCoverage \<Rightarrow> AbstractFileCoverage" where
  "ComputedFileCoverage_new coverage = AbstractFileCoverage_new coverage"

text \<open>The values of the tree: \<^verbatim>\<open>FileCoverage | ComputedFileCoverage\<close>.\<close>

datatype coverage = File FileCoverage | Computed AbstractFileCoverage

text \<open>The view of a tree value as an \<^verbatim>\<open>AbstractFileCoverage\<close>.\<close>

fun abstract :: "coverage \<Rightarrow> AbstractFileCoverage" where
  "abstract (File f) = AbstractFileCoverage.truncate f"
| "abstract (Computed c) = c"

subsection \<open>Prefix tree\<close>

text \<open>
  Modelled from the spec: the prefix tree (\<^verbatim>\<open>WellDefinedPrefixTree\<close> with its
  nodes \<^verbatim>\<open>IPrefixTreeNode\<close>), imported from a module that is not among the sources
  at hand.  A node has an optional value and its children by key segment, in
  insertion order; a tree is its root node.  The field \<^verbatim>\<open>value\<close> is written
  \<open>node_value\<close>.
\<close>

datatype 'v Node = Node (node_value: "'v option") (children: "(string \<times> 'v Node) list")

text \<open>
  Modelled from the spec: \<^verbatim>\<open>insert(pathSegments, leaf)\<close> adds the value at the
  given key, creating the positions on the way.
\<close>

fun insert_tree :: "string list \<Rightarrow> 'v \<Rightarrow> 'v Node \<Rightarrow> 'v Node" where
  "insert_tree [] v (Node x cs) = Node (Some v) cs"
| "insert_tree (k # ks) v (Node x cs) =
     Node x (case map_of cs k of
               None \<Rightarrow> cs @ [(k, insert_tree ks v (Node None []))]
             | Some c \<Rightarrow> AList.update k (insert_tree ks v c) cs)"

text \<open>
  Modelled from the spec: lookup by path returns the node at that exact key,
  or nothing.
\<close>

fun find_tree :: "string list \<Rightarrow> 'v Node \<Rightarrow> 'v Node option" where
  "find_tree [] n = Some n"
| "find_tree (k # ks) (Node x cs) =
     (case map_of cs k of None \<Rightarrow> None | Some c \<Rightarrow> find_tree ks c)"

text \<open>
  Modelled from the spec: \<^verbatim>\<open>nodes\<close>, every position of the tree below the root
  in pre-order, each given by its path.
\<close>

fun nodes_below :: "(string \<times> 'v Node) list \<Rightarrow> string list list"
  and nodes :: "'v Node \<Rightarrow> string list list" where
  "nodes_below [] = []"
| "nodes_below ((k, c) # cs) = [k] # map ((#) k) (nodes c) @ nodes_below cs"
| "nodes (Node x cs) = nodes_below cs"

text \<open>Writing a node back at its position (the tree is mutable in the source).\<close>

fun put_tree :: "string list \<Rightarrow> 'v Node \<Rightarrow> 'v Node \<Rightarrow> 'v Node" where
  "put_tree [] n' n = n'"
| "put_tree (k # ks) n' (Node x cs) =
     Node x (case map_of cs k of
               None \<Rightarrow> cs
             | Some c \<Rightarrow> AList.update k (put_tree ks n' c) cs)"

subsection \<open>Resource identifiers and tree keys\<close>

text \<open>\<^verbatim>\<open>String.prototype.split\<close> with a one-character separator.\<close>

fun split :: "char \<Rightarrow> string \<Rightarrow> string list" where
  "split sep [] = [[]]"
| "split sep (c # cs) =
     (if c = sep then [] # split sep cs
      else (c # hd (split sep cs)) # tl (split sep cs))"

text \<open>\<^verbatim>\<open>Array.prototype.join\<close> with a one-character separator.\<close>

fun join :: "char \<Rightarrow> string list \<Rightarrow> string" where
  "join sep [] = []"
| "join sep [x] = x"
| "join sep (x # y # ys) = x @ sep # join sep (y # ys)"

text \<open>
  \<^verbatim>\<open>treePathForUri\<close>:
  \<^verbatim>\<open>yield uri.scheme; yield uri.authority; yield* uri.path.split('/');\<close>
\<close>

definition treePathForUri :: "URI \<Rightarrow> string list" where
  "treePathForUri u = scheme u # authority u # split (CHR ''/'') (path u)"

text \<open>
  Modelled from the spec: \<^verbatim>\<open>URI.from\<close>, which builds an identifier from its
  components; the class \<^verbatim>\<open>URI\<close> is not among the sources at hand.  A component
  that is \<^verbatim>\<open>undefined\<close> is read as the empty string.
\<close>

definition URI_from :: "string option \<Rightarrow> string option \<Rightarrow> string \<Rightarrow> URI" where
  "URI_from s a p =
     \<lparr> scheme = (case s of None \<Rightarrow> [] | Some x \<Rightarrow> x),
       authority = (case a of None \<Rightarrow> [] | Some x \<Rightarrow> x),
       path = p \<rparr>"

text \<open>An array element that may be \<^verbatim>\<open>undefined\<close>.\<close>

definition element :: "'a list \<Rightarrow> nat \<Rightarrow> 'a option" where
  "element xs i = (if i < length xs then Some (xs ! i) else None)"

text \<open>
  \<^verbatim>\<open>treePathToUri\<close>:
  \<^verbatim>\<open>URI.from({ scheme: path[0], authority: path[1], path: path.slice(2).join('/') })\<close>
\<close>

definition treePathToUri :: "string list \<Rightarrow> URI" where
  "treePathToUri p = URI_from (element p 0) (element p 1) (join (CHR ''/'') (drop 2 p))"

subsection \<open>Building the tree\<close>

text \<open>
  \<^verbatim>\<open>sumCounts(slot ??= emptyCounts(), src)\<close> for an optional count of the
  aggregate under construction: the new content of the slot.
\<close>

definition sumInto :: "ICoveredCount option \<Rightarrow> ICoveredCount \<Rightarrow> ICoveredCount option" where
  "sumInto slot src = Some (sumCounts (case slot of None \<Rightarrow> emptyCounts | Some t \<Rightarrow> t) src)"

text \<open>
  \<^verbatim>\<open>calculateComputed\<close>, with the loop over the children as a function of
  its own.  The source mutates the node (\<^verbatim>\<open>node.value = ...\<close>); the model
  returns the node as it is after the call, next to the result.
\<close>

fun calculateComputed :: "string list \<Rightarrow> coverage Node \<Rightarrow> coverage \<times> coverage Node"
  and sumChildren ::
    "string list \<Rightarrow> IFileCoverage \<Rightarrow> (string \<times> coverage Node) list
       \<Rightarrow> IFileCoverage \<times> (string \<times> coverage Node) list" where
  "calculateComputed p (Node (Some v) cs) = (v, Node (Some v) cs)"
| "calculateComputed p (Node None cs) =
     (let fileCoverage =
            \<lparr> uri = treePathToUri p, statement = emptyCounts,
              branch = None, func = None, details = None \<rparr>;
          (fileCoverage, cs') = sumChildren p fileCoverage cs;
          v = Computed (ComputedFileCoverage_new fileCoverage)
      in (v, Node (Some v) cs'))"
| "sumChildren p fileCoverage [] = (fileCoverage, [])"
| "sumChildren p fileCoverage ((prefix, child) # rest) =
     (let (v, child') = calculateComputed (p @ [prefix]) child;
          fileCoverage =
            fileCoverage\<lparr> statement :=
              sumCounts (statement fileCoverage) (n_statement (abstract v)) \<rparr>;
          fileCoverage =
            (case n_branch (abstract v) of
               None \<Rightarrow> fileCoverage
             | Some b \<Rightarrow> fileCoverage\<lparr> branch := sumInto (branch fileCoverage) b \<rparr>);
          fileCoverage =
            (case n_func (abstract v) of
               None \<Rightarrow> fileCoverage
             | Some f \<Rightarrow> fileCoverage\<lparr> func := sumInto (func fileCoverage) f \<rparr>);
          (fileCoverage, rest') = sumChildren p fileCoverage rest
      in (fileCoverage, (prefix, child') # rest'))"

text \<open>
  Vocabulary for the aggregation: the values of the children of a position,
  the componentwise sum of a list of counts, and the sum of the counts that
  are present in a list of optional counts, absent when none is present.
\<close>

definition child_values :: "(string \<times> coverage Node) list \<Rightarrow> AbstractFileCoverage list" where
  "child_values cs =
     concat (map (\<lambda>(k, c). case node_value c of None \<Rightarrow> [] | Some v \<Rightarrow> [abstract v]) cs)"

definition sum_of :: "ICoveredCount list \<Rightarrow> ICoveredCount" where
  "sum_of xs = \<lparr> covered = sum_list (map covered xs), total = sum_list (map total xs) \<rparr>"

definition present :: "'a option list \<Rightarrow> 'a list" where
  "present os = concat (map (\<lambda>x. case x of None \<Rightarrow> [] | Some y \<Rightarrow> [y]) os)"

definition sum_present :: "ICoveredCount option list \<Rightarrow> ICoveredCount option" where
  "sum_present os = (if present os = [] then None else Some (sum_of (present os)))"

text \<open>
  The first loop of \<^verbatim>\<open>createFileCoverage\<close>:
  \<^verbatim>\<open>for (let i = 0; i < files.length; i++) { const file = files[i];
  tree.insert(this.treePathForUri(file.uri), new FileCoverage(file, 0, this.accessor)); }\<close>
\<close>

definition insertFiles :: "IFileCoverage list \<Rightarrow> coverage Node" where
  "insertFiles files =
     foldl (\<lambda>tree i.
              let file = files ! i
              in insert_tree (treePathForUri (uri file)) (File (FileCoverage_new file 0)) tree)
       (Node None []) [0 ..< length files]"

text \<open>
  The second loop:
  \<^verbatim>\<open>for (const node of tree.nodes) { calculateComputed([], node); }\<close>
\<close>

definition computeNodes :: "coverage Node \<Rightarrow> coverage Node" where
  "computeNodes tree =
     foldl (\<lambda>t p. case find_tree p t of
                     None \<Rightarrow> t
                   | Some node \<Rightarrow> put_tree p (snd (calculateComputed [] node)) t)
       tree (nodes tree)"

text \<open>
  \<^verbatim>\<open>createFileCoverage\<close> from the moment the provider has answered with
  \<open>files\<close>: the tree the promise is fulfilled with.
\<close>

definition createFileCoverage :: "IFileCoverage list \<Rightarrow> coverage Node" where
  "createFileCoverage files = computeNodes (insertFiles files)"

text \<open>
  \<^verbatim>\<open>getUri\<close> from the moment \<^verbatim>\<open>getAllFiles\<close> has answered with \<open>files\<close>:
  \<^verbatim>\<open>return files.find(uri.path.split('/'));\<close>
\<close>

definition getUri :: "coverage Node \<Rightarrow> URI \<Rightarrow> coverage Node option" where
  "getUri files u = find_tree (split (CHR ''/'') (path u)) files"

subsection \<open>Promises and suspended calls\<close>

text \<open>
  The two accessors are \<^verbatim>\<open>async\<close> functions over promises of the provider.
  Execution is single-threaded: a call runs to its \<^verbatim>\<open>await\<close>, is suspended
  there, and is resumed later, once the awaited promise is settled.  The
  model makes these moments events of a run: a call enters, the provider
  settles one of its promises, a suspended call is resumed.  An event that
  cannot happen (settling a promise twice, resuming a call whose promise is
  pending) leaves the state as it is.  The events of a run come in any order,
  which covers the order the job queue imposes.  The cancellation token is
  only handed on to the provider, where a cancellation shows as a rejection.
\<close>

type_synonym error = string

datatype 'a promise = Pending | Fulfilled 'a | Rejected error

text \<open>A call of an \<^verbatim>\<open>async\<close> function: suspended at its \<^verbatim>\<open>await\<close>, or finished.\<close>

datatype ('w, 'a) activation = Awaiting 'w | Returned 'a | Threw error

text \<open>The provider settles the promise of its \<open>k\<close>-th call, if that is still pending.\<close>

definition settle :: "nat \<Rightarrow> 'a promise \<Rightarrow> 'a promise list \<Rightarrow> 'a promise list" where
  "settle k r ps = (if k < length ps \<and> ps ! k = Pending then ps[k := r] else ps)"

subsection \<open>Details of a file\<close>

text \<open>
  The state of a run around one \<^verbatim>\<open>FileCoverage\<close>: the object, the arguments
  \<^verbatim>\<open>fileIndex\<close> of the calls of \<^verbatim>\<open>accessor.resolveFileCoverage\<close> so far, the
  promise each of them returned, and the calls of \<^verbatim>\<open>details\<close> so far.
\<close>

record details_run =
  leaf :: FileCoverage
  resolveFileCoverage_calls :: "nat list"
  resolveFileCoverage_promises :: "CoverageDetails list promise list"
  details_calls :: "(details_slot, CoverageDetails list) activation list"

text \<open>
  \<^verbatim>\<open>details\<close> up to its \<^verbatim>\<open>await\<close>:
  \<^verbatim>\<open>this._details ??= this.accessor.resolveFileCoverage(this.index, token);\<close>
  then the call is suspended on \<^verbatim>\<open>this._details\<close>.
\<close>

definition details_enter :: "details_run \<Rightarrow> details_run" where
  "details_enter s =
     (case priv_details (leaf s) of
        Some d \<Rightarrow> s\<lparr> details_calls := details_calls s @ [Awaiting d] \<rparr>
      | None \<Rightarrow>
          let p = length (resolveFileCoverage_promises s)
          in s\<lparr> leaf := (leaf s)\<lparr> priv_details := Some (DetailsPromise p) \<rparr>,
                resolveFileCoverage_calls := resolveFileCoverage_calls s @ [index (leaf s)],
                resolveFileCoverage_promises := resolveFileCoverage_promises s @ [Pending],
                details_calls := details_calls s @ [Awaiting (DetailsPromise p)] \<rparr>)"

text \<open>
  \<^verbatim>\<open>details\<close> from its \<^verbatim>\<open>await\<close> on, for the \<open>t\<close>-th call:
  \<^verbatim>\<open>try { return await this._details; } catch (e) { this._details = undefined; throw e; }\<close>
  An awaited array is the result as it is.
\<close>

definition details_resume :: "nat \<Rightarrow> details_run \<Rightarrow> details_run" where
  "details_resume t s =
     (if t < length (details_calls s) then
        (case details_calls s ! t of
           Awaiting (DetailsArray a) \<Rightarrow>
             s\<lparr> details_calls := (details_calls s)[t := Returned a] \<rparr>
         | Awaiting (DetailsPromise p) \<Rightarrow>
             (if p < length (resolveFileCoverage_promises s) then
                (case resolveFileCoverage_promises s ! p of
                   Pending \<Rightarrow> s
                 | Fulfilled a \<Rightarrow> s\<lparr> details_calls := (details_calls s)[t := Returned a] \<rparr>
                 | Rejected e \<Rightarrow>
                     s\<lparr> leaf := (leaf s)\<lparr> priv_details := None \<rparr>,
                        details_calls := (details_calls s)[t := Threw e] \<rparr>)
              else s)
         | Returned a \<Rightarrow> s
         | Threw e \<Rightarrow> s)
      else s)"

datatype details_event =
    CallDetails
  | ResolverFulfils nat "CoverageDetails list"
  | ResolverRejects nat error
  | ResumeDetails nat

fun details_step :: "details_run \<Rightarrow> details_event \<Rightarrow> details_run" where
  "details_step s CallDetails = details_enter s"
| "details_step s (ResolverFulfils k a) =
     s\<lparr> resolveFileCoverage_promises := settle k (Fulfilled a) (resolveFileCoverage_promises s) \<rparr>"
| "details_step s (ResolverRejects k e) =
     s\<lparr> resolveFileCoverage_promises := settle k (Rejected e) (resolveFileCoverage_promises s) \<rparr>"
| "details_step s (ResumeDetails t) = details_resume t s"

definition details_init :: "FileCoverage \<Rightarrow> details_run" where
  "details_init l =
     \<lparr> leaf = l, resolveFileCoverage_calls = [], resolveFileCoverage_promises = [],
       details_calls = [] \<rparr>"

definition details_exec :: "FileCoverage \<Rightarrow> details_event list \<Rightarrow> details_run" where
  "details_exec l es = foldl details_step (details_init l) es"

subsection \<open>The files of a run\<close>

text \<open>
  The state of a \<^verbatim>\<open>TestCoverage\<close>: the field \<^verbatim>\<open>fileCoverage\<close> (nothing, or
  the promise returned by the \<open>k\<close>-th call of \<^verbatim>\<open>createFileCoverage\<close>), the
  promises returned by the calls of \<^verbatim>\<open>accessor.provideFileCoverage\<close>, the
  promises returned by the calls of \<^verbatim>\<open>createFileCoverage\<close>, and the calls of
  \<^verbatim>\<open>getAllFiles\<close> so far.  \<^verbatim>\<open>createFileCoverage\<close> calls the provider first
  thing, so its \<open>k\<close>-th call awaits the provider's \<open>k\<close>-th promise.
\<close>

record session =
  fileCoverage :: "nat option"
  provideFileCoverage_promises :: "IFileCoverage list promise list"
  createFileCoverage_promises :: "coverage Node promise list"
  getAllFiles_calls :: "(nat, coverage Node) activation list"

text \<open>
  \<^verbatim>\<open>getAllFiles\<close> up to its \<^verbatim>\<open>await\<close>:
  \<^verbatim>\<open>this.fileCoverage ??= this.createFileCoverage(token);\<close>
\<close>

definition getAllFiles_enter :: "session \<Rightarrow> session" where
  "getAllFiles_enter s =
     (case fileCoverage s of
        Some q \<Rightarrow> s\<lparr> getAllFiles_calls := getAllFiles_calls s @ [Awaiting q] \<rparr>
      | None \<Rightarrow>
          let q = length (createFileCoverage_promises s)
          in s\<lparr> fileCoverage := Some q,
                provideFileCoverage_promises := provideFileCoverage_promises s @ [Pending],
                createFileCoverage_promises := createFileCoverage_promises s @ [Pending],
                getAllFiles_calls := getAllFiles_calls s @ [Awaiting q] \<rparr>)"

text \<open>
  \<^verbatim>\<open>createFileCoverage\<close> from its \<^verbatim>\<open>await\<close> on, for its \<open>k\<close>-th call: with the
  files of the provider it builds the tree and fulfils its promise; a
  rejection of the provider rejects its promise.
\<close>

definition createFileCoverage_resume :: "nat \<Rightarrow> session \<Rightarrow> session" where
  "createFileCoverage_resume k s =
     (if k < length (createFileCoverage_promises s) \<and>
         k < length (provideFileCoverage_promises s) \<and>
         createFileCoverage_promises s ! k = Pending then
        (case provideFileCoverage_promises s ! k of
           Pending \<Rightarrow> s
         | Fulfilled files \<Rightarrow>
             s\<lparr> createFileCoverage_promises :=
                  (createFileCoverage_promises s)[k := Fulfilled (createFileCoverage files)] \<rparr>
         | Rejected e \<Rightarrow>
             s\<lparr> createFileCoverage_promises :=
                  (createFileCoverage_promises s)[k := Rejected e] \<rparr>)
      else s)"

text \<open>
  \<^verbatim>\<open>getAllFiles\<close> from its \<^verbatim>\<open>await\<close> on, for the \<open>t\<close>-th call:
  \<^verbatim>\<open>try { return await this.fileCoverage; } catch (e) { this.fileCoverage = undefined; throw e; }\<close>
\<close>

definition getAllFiles_resume :: "nat \<Rightarrow> session \<Rightarrow> session" where
  "getAllFiles_resume t s =
     (if t < length (getAllFiles_calls s) then
        (case getAllFiles_calls s ! t of
           Awaiting q \<Rightarrow>
             (if q < length (createFileCoverage_promises s) then
                (case createFileCoverage_promises s ! q of
                   Pending \<Rightarrow> s
                 | Fulfilled tree \<Rightarrow>
                     s\<lparr> getAllFiles_calls := (getAllFiles_calls s)[t := Returned tree] \<rparr>
                 | Rejected e \<Rightarrow>
                     s\<lparr> fileCoverage := None,
                        getAllFiles_calls := (getAllFiles_calls s)[t := Threw e] \<rparr>)
              else s)
         | Returned tree \<Rightarrow> s
         | Threw e \<Rightarrow> s)
      else s)"

datatype session_event =
    CallGetAllFiles
  | ProviderFulfils nat "IFileCoverage list"
  | ProviderRejects nat error
  | ResumeCreateFileCoverage nat
  | ResumeGetAllFiles nat

fun session_step :: "session \<Rightarrow> session_event \<Rightarrow> session" where
  "session_step s CallGetAllFiles = getAllFiles_enter s"
| "session_step s (ProviderFulfils k files) =
     s\<lparr> provideFileCoverage_promises := settle k (Fulfilled files) (provideFileCoverage_promises s) \<rparr>"
| "session_step s (ProviderRejects k e) =
     s\<lparr> provideFileCoverage_promises := settle k (Rejected e) (provideFileCoverage_promises s) \<rparr>"
| "session_step s (ResumeCreateFileCoverage k) = createFileCoverage_resume k s"
| "session_step s (ResumeGetAllFiles t) = getAllFiles_resume t s"

definition session_init :: session where
  "session_init =
     \<lparr> fileCoverage = None, provideFileCoverage_promises = [],
       createFileCoverage_promises = [], getAllFiles_calls = [] \<rparr>"

definition session_exec :: "session_event list \<Rightarrow> session" where
  "session_exec es = foldl session_step session_init es"

subsection \<open>Vocabulary of the proofs\<close>

text \<open>A tree value made by a constructor of the class from some record.\<close>

definition constructed :: "coverage \<Rightarrow> bool" where
  "constructed v = (\<exists>r. abstract v = AbstractFileCoverage_new r)"

text \<open>Every value at or below a position was made by a constructor.\<close>

definition all_constructed :: "coverage Node \<Rightarrow> bool" where
  "all_constructed t = (\<forall>v \<in> set_Node t. constructed v)"

text \<open>An optional count after the counts present in a list were summed into it.\<close>

definition add_present :: "ICoveredCount option \<Rightarrow> ICoveredCount option list \<Rightarrow> ICoveredCount option" where
  "add_present slot os =
     (if present os = [] then slot
      else Some (sumCounts (case slot of None \<Rightarrow> emptyCounts | Some t \<Rightarrow> t) (sum_of (present os))))"

text \<open>The first promise of a list, if there is one, has not been rejected.\<close>

definition first_ok :: "'a promise list \<Rightarrow> bool" where
  "first_ok ps = (case ps of [] \<Rightarrow> True | Rejected e # rs \<Rightarrow> False | _ \<Rightarrow> True)"

text \<open>
  A run around a file whose record came with the entries \<open>ds\<close>: the resolver
  is never called and every call of \<^verbatim>\<open>details\<close> is about \<open>ds\<close>.
\<close>

definition inline_inv :: "CoverageDetails list \<Rightarrow> details_run \<Rightarrow> bool" where
  "inline_inv ds s \<longleftrightarrow>
     priv_details (leaf s) = Some (DetailsArray ds) \<and>
     resolveFileCoverage_calls s = [] \<and>
     resolveFileCoverage_promises s = [] \<and>
     (\<forall>c \<in> set (details_calls s). c = Awaiting (DetailsArray ds) \<or> c = Returned ds)"

text \<open>
  A run around a file \<open>l\<close> whose record came without entries: before the first
  call nothing has happened; as long as the resolver's first promise is not
  rejected it is the only one, it is the cached one, and every call of
  \<^verbatim>\<open>details\<close> is suspended on it or has returned its value.
\<close>

definition lazy_inv :: "FileCoverage \<Rightarrow> details_run \<Rightarrow> bool" where
  "lazy_inv l s \<longleftrightarrow>
     index (leaf s) = index l \<and>
     (resolveFileCoverage_promises s = [] \<longrightarrow>
        priv_details (leaf s) = None \<and> resolveFileCoverage_calls s = [] \<and> details_calls s = []) \<and>
     (resolveFileCoverage_promises s \<noteq> [] \<and> first_ok (resolveFileCoverage_promises s) \<longrightarrow>
        length (resolveFileCoverage_promises s) = 1 \<and>
        priv_details (leaf s) = Some (DetailsPromise 0) \<and>
        resolveFileCoverage_calls s = [index l] \<and> details_calls s \<noteq> [] \<and>
        (\<forall>c \<in> set (details_calls s).
           c = Awaiting (DetailsPromise 0) \<or>
           (\<exists>a. c = Returned a \<and> resolveFileCoverage_promises s = [Fulfilled a])))"

text \<open>
  The promise of a call of \<^verbatim>\<open>createFileCoverage\<close> against the provider's
  promise it awaits: fulfilled with the tree of the provider's files, or
  rejected with the provider's error.
\<close>

definition built_from :: "IFileCoverage list promise \<Rightarrow> coverage Node promise \<Rightarrow> bool" where
  "built_from pr cr =
     (case cr of
        Pending \<Rightarrow> True
      | Fulfilled tree \<Rightarrow> (case pr of Fulfilled files \<Rightarrow> tree = createFileCoverage files | _ \<Rightarrow> False)
      | Rejected e \<Rightarrow> pr = Rejected e)"

text \<open>The same for the files of a run.\<close>

definition session_inv :: "session \<Rightarrow> bool" where
  "session_inv s \<longleftrightarrow>
     length (provideFileCoverage_promises s) = length (createFileCoverage_promises s) \<and>
     (createFileCoverage_promises s = [] \<longrightarrow> fileCoverage s = None \<and> getAllFiles_calls s = []) \<and>
     (createFileCoverage_promises s \<noteq> [] \<and> first_ok (createFileCoverage_promises s) \<longrightarrow>
        length (createFileCoverage_promises s) = 1 \<and>
        fileCoverage s = Some 0 \<and> getAllFiles_calls s \<noteq> [] \<and>
        (\<forall>c \<in> set (getAllFiles_calls s).
           c = Awaiting 0 \<or>
           (\<exists>tree. c = Returned tree \<and> createFileCoverage_promises s = [Fulfilled tree]))) \<and>
     (\<forall>k < length (createFileCoverage_promises s).
        built_from (provideFileCoverage_promises s ! k) (createFileCoverage_promises s ! k))"


section \<open>Properties\<close>

subsection \<open>Construction of a node\<close>

text \<open>
  Claim C2 says that a node carries the function count and the branch count of
  its record independently.  The constructor reads the branch count into both
  fields: the function count of the node is the branch count of the record,
  and a record with a function count and no branch count gives a node with
  neither.
\<close>

theorem AbstractFileCoverage_new_function_from_branch:
  "n_branch (AbstractFileCoverage_new r) = branch r \<and>
   n_func (AbstractFileCoverage_new r) = branch r \<and>
   n_func (AbstractFileCoverage_new
      \<lparr> uri = \<lparr> scheme = ''file'', authority = [], path = ''/a.ts'' \<rparr>,
        statement = \<lparr> covered = 1, total = 1 \<rparr>,
        branch = None,
        func = Some \<lparr> covered = 1, total = 2 \<rparr>,
        details = None \<rparr>) = None"
  by (simp add: AbstractFileCoverage_new_def)

subsection \<open>Total percent covered\<close>

lemma tpc_sums:
  "tpc_numerator c = sum_list (map covered (present_counts c))"
  "tpc_denominator c = sum_list (map total (present_counts c))"
  by (simp_all add: tpc_numerator_def tpc_denominator_def present_counts_def split: option.splits)

text \<open>
  Claim C5: \<open>tpc\<close> is the sum of \<open>covered\<close> over the present categories divided
  by the sum of \<open>total\<close> over them, and \<open>1\<close> when that sum is zero; when
  \<open>covered \<le> total\<close> holds in every present category it lies between \<open>0\<close> and
  \<open>1\<close>; when every present category has \<open>total = 0\<close> it is \<open>1\<close>.
\<close>

theorem tpc_formula:
  "tpc c =
     (if sum_list (map total (present_counts c)) = 0 then 1
      else real (sum_list (map covered (present_counts c))) /
           real (sum_list (map total (present_counts c)))) \<and>
   ((\<forall>cc \<in> set (present_counts c). covered cc \<le> total cc) \<longrightarrow> 0 \<le> tpc c \<and> tpc c \<le> 1) \<and>
   ((\<forall>cc \<in> set (present_counts c). total cc = 0) \<longrightarrow> tpc c = 1)"
proof (intro conjI)
  show "tpc c =
     (if sum_list (map total (present_counts c)) = 0 then 1
      else real (sum_list (map covered (present_counts c))) /
           real (sum_list (map total (present_counts c))))"
    by (simp add: tpc_def tpc_sums)
  show "(\<forall>cc \<in> set (present_counts c). covered cc \<le> total cc) \<longrightarrow> 0 \<le> tpc c \<and> tpc c \<le> 1"
  proof
    assume inv: "\<forall>cc \<in> set (present_counts c). covered cc \<le> total cc"
    then have le: "tpc_numerator c \<le> tpc_denominator c"
      unfolding tpc_sums by (intro sum_list_mono) simp
    show "0 \<le> tpc c \<and> tpc c \<le> 1"
    proof (cases "tpc_denominator c = 0")
      case True
      then show ?thesis by (simp add: tpc_def)
    next
      case False
      with le show ?thesis by (simp add: tpc_def)
    qed
  qed
  show "(\<forall>cc \<in> set (present_counts c). total cc = 0) \<longrightarrow> tpc c = 1"
  proof
    assume "\<forall>cc \<in> set (present_counts c). total cc = 0"
    then have "tpc_denominator c = 0"
      unfolding tpc_sums by simp
    then show "tpc c = 1" by (simp add: tpc_def)
  qed
qed

text \<open>
  The formula at two nodes: one with statement 1 of 2 and branch 1 of 1
  (\<open>tpc = 2/3\<close>), one whose statement and function counts have total zero.
\<close>

theorem tpc_formula_witness:
  "present_counts
     \<lparr> n_uri = \<lparr> scheme = ''file'', authority = [], path = ''/a.ts'' \<rparr>,
       n_statement = \<lparr> covered = 1, total = 2 \<rparr>,
       n_branch = Some \<lparr> covered = 1, total = 1 \<rparr>,
       n_func = None \<rparr> = [\<lparr> covered = 1, total = 2 \<rparr>, \<lparr> covered = 1, total = 1 \<rparr>] \<and>
   tpc \<lparr> n_uri = \<lparr> scheme = ''file'', authority = [], path = ''/a.ts'' \<rparr>,
         n_statement = \<lparr> covered = 1, total = 2 \<rparr>,
         n_branch = Some \<lparr> covered = 1, total = 1 \<rparr>,
         n_func = None \<rparr> = 2 / 3 \<and>
   0 \<le> tpc \<lparr> n_uri = \<lparr> scheme = ''file'', authority = [], path = ''/a.ts'' \<rparr>,
         n_statement = \<lparr> covered = 1, total = 2 \<rparr>,
         n_branch = Some \<lparr> covered = 1, total = 1 \<rparr>,
         n_func = None \<rparr> \<and>
   tpc \<lparr> n_uri = \<lparr> scheme = ''file'', authority = [], path = ''/a.ts'' \<rparr>,
         n_statement = \<lparr> covered = 1, total = 2 \<rparr>,
         n_branch = Some \<lparr> covered = 1, total = 1 \<rparr>,
         n_func = None \<rparr> \<le> 1 \<and>
   present_counts
     \<lparr> n_uri = \<lparr> scheme = ''file'', authority = [], path = ''/b.ts'' \<rparr>,
       n_statement = \<lparr> covered = 0, total = 0 \<rparr>,
       n_branch = None,
       n_func = Some \<lparr> covered = 0, total = 0 \<rparr> \<rparr> =
     [\<lparr> covered = 0, total = 0 \<rparr>, \<lparr> covered = 0, total = 0 \<rparr>] \<and>
   tpc \<lparr> n_uri = \<lparr> scheme = ''file'', authority = [], path = ''/b.ts'' \<rparr>,
         n_statement = \<lparr> covered = 0, total = 0 \<rparr>,
         n_branch = None,
         n_func = Some \<lparr> covered = 0, total = 0 \<rparr> \<rparr> = 1"
  using
    tpc_formula [of "\<lparr> n_uri = \<lparr> scheme = ''file'', authority = [], path = ''/a.ts'' \<rparr>,
         n_statement = \<lparr> covered = 1, total = 2 \<rparr>,
         n_branch = Some \<lparr> covered = 1, total = 1 \<rparr>,
         n_func = None \<rparr>"]
    tpc_formula [of "\<lparr> n_uri = \<lparr> scheme = ''file'', authority = [], path = ''/b.ts'' \<rparr>,
         n_statement = \<lparr> covered = 0, total = 0 \<rparr>,
         n_branch = None,
         n_func = Some \<lparr> covered = 0, total = 0 \<rparr> \<rparr>"]
  by (simp add: present_counts_def)

subsection \<open>The displayed statistic\<close>

text \<open>
  Claim C9: in the mode \<open>Minimum\<close> the selector returns the least of the
  percentages of the present categories, each being \<open>covered / total\<close>, or \<open>1\<close>
  for a total of zero; a node with statement 95 of 100 and branch 70 of 100
  gives \<open>0.70\<close>.  In the mode \<open>Statement\<close> it returns the statement percentage,
  in the mode \<open>TotalCoverage\<close> the node's \<open>tpc\<close>.
\<close>

theorem calculateDisplayedStat_modes:
  "calculateDisplayedStat c Minimum = Min (set (map percent (present_counts c))) \<and>
   percent cc = (if total cc = 0 then 1 else real (covered cc) / real (total cc)) \<and>
   calculateDisplayedStat
     (AbstractFileCoverage_new
        \<lparr> uri = u, statement = \<lparr> covered = 95, total = 100 \<rparr>,
          branch = Some \<lparr> covered = 70, total = 100 \<rparr>, func = None, details = None \<rparr>)
     Minimum = 70 / 100 \<and>
   calculateDisplayedStat c Statement = percent (n_statement c) \<and>
   calculateDisplayedStat c TotalCoverage = tpc c"
proof (intro conjI)
  show "calculateDisplayedStat c Minimum = Min (set (map percent (present_counts c)))"
    by (simp add: present_counts_def Let_def min_def split: option.splits)
  show "percent cc = (if total cc = 0 then 1 else real (covered cc) / real (total cc))"
    by (simp add: percent_def)
  show "calculateDisplayedStat
     (AbstractFileCoverage_new
        \<lparr> uri = u, statement = \<lparr> covered = 95, total = 100 \<rparr>,
          branch = Some \<lparr> covered = 70, total = 100 \<rparr>, func = None, details = None \<rparr>)
     Minimum = 70 / 100"
    by (simp add: AbstractFileCoverage_new_def percent_def Let_def)
qed simp_all

subsection \<open>Display of a percentage\<close>

lemmas format_eval = toFixed_def precision_def epsilon_def digits_of.simps digit_char_def
  nearest_scaled_def place_point_def pad_zeros_def

text \<open>With two decimals the rendering always has a decimal point.\<close>

lemma toFixed_has_point:
  assumes "toFixed x precision = Some d"
  shows "CHR ''.'' \<in> set d"
  using assms by (auto simp: toFixed_def precision_def place_point_def split: if_splits)

text \<open>So the comparison with \<^verbatim>\<open>'100'\<close> never holds, whatever the value.\<close>

lemma displayPercent_plain:
  "displayPercent v = map_option (\<lambda>d. d @ ''%'') (toFixed (v * 100) precision)"
proof (cases "toFixed (v * 100) precision")
  case None
  then show ?thesis by (simp add: displayPercent_def)
next
  case (Some d)
  then have "d \<noteq> ''100''"
    using toFixed_has_point [OF Some] by auto
  with Some show ?thesis by (simp add: displayPercent_def)
qed

lemma nearest_scaled_near_one:
  assumes "1 - 1 / 10 ^ 7 \<le> f" "f \<le> 1"
  shows "nearest_scaled \<bar>f * 100\<bar> precision = 10000"
proof -
  have "\<lfloor>f * 100 * 10 ^ 2 + 1 / 2\<rfloor> = 10000"
    using assms by (intro floor_unique) simp_all
  moreover have "\<bar>f * 100\<bar> = f * 100"
    using assms by simp
  ultimately show ?thesis
    by (simp add: nearest_scaled_def precision_def)
qed

lemma toFixed_near_one:
  assumes "1 - 1 / 10 ^ 7 \<le> f" "f \<le> 1"
  shows "toFixed (f * 100) precision = Some ''100.00''"
proof -
  have "\<bar>f * 100\<bar> < 10 ^ 21" using assms by simp
  moreover have "\<not> f * 100 < 0" using assms by simp
  moreover have "place_point 2 (digits_of 10000) = ''100.00''"
    by (simp add: format_eval)
  ultimately show ?thesis
    using nearest_scaled_near_one [OF assms]
    by (simp add: toFixed_def precision_def del: abs_mult)
qed

text \<open>
  Claim C4 says that a fraction \<open>f\<close> with \<open>1 - 1e-7 \<le> f < 1\<close> is displayed as
  \<open>99.99%\<close>.  At \<open>f = 0.9999999\<close> the code displays \<open>100.00%\<close>: the guard
  \<^verbatim>\<open>value < 1 - epsilon\<close> excludes the fractions within \<open>epsilon = 1e-7\<close> of one.
\<close>

theorem displayPercent_counterexample:
  "1 - 1 / 10 ^ 7 \<le> (9999999 / 10000000 :: real) \<and> (9999999 / 10000000 :: real) < 1 \<and>
   displayPercent (9999999 / 10000000) = Some ''100.00%'' \<and>
   displayPercent (9999999 / 10000000) \<noteq> Some ''99.99%''"
  by (simp add: displayPercent_def format_eval)

text \<open>
  Claim C4, amended: every fraction \<open>f\<close> with \<open>1 - 1e-7 \<le> f \<le> 1\<close> is displayed
  as \<open>100.00%\<close>, the value \<open>1\<close> among them; and every value that is at least
  \<open>1 - 1e-7\<close>, or whose rendering with two decimals is not \<open>100.00\<close>, is
  displayed as that rendering of the value scaled by 100, followed by \<open>%\<close>.
\<close>

theorem displayPercent_policy:
  "(1 - 1 / 10 ^ 7 \<le> f \<and> f \<le> 1 \<longrightarrow> displayPercent f = Some ''100.00%'') \<and>
   (\<forall>d. toFixed (f * 100) precision = Some d \<and> (d \<noteq> ''100.00'' \<or> 1 - 1 / 10 ^ 7 \<le> f)
        \<longrightarrow> displayPercent f = Some (d @ ''%''))"
proof (intro conjI impI allI)
  assume "1 - 1 / 10 ^ 7 \<le> f \<and> f \<le> 1"
  then show "displayPercent f = Some ''100.00%''"
    by (simp add: displayPercent_plain toFixed_near_one)
next
  fix d
  assume "toFixed (f * 100) precision = Some d \<and> (d \<noteq> ''100.00'' \<or> 1 - 1 / 10 ^ 7 \<le> f)"
  then show "displayPercent f = Some (d @ ''%'')"
    by (simp add: displayPercent_plain)
qed

text \<open>The policy at \<open>0.9999999\<close>, at \<open>1\<close> and at one third.\<close>

theorem displayPercent_policy_witness:
  "1 - 1 / 10 ^ 7 \<le> (9999999 / 10000000 :: real) \<and> (9999999 / 10000000 :: real) \<le> 1 \<and>
   displayPercent (9999999 / 10000000) = Some ''100.00%'' \<and>
   displayPercent 1 = Some ''100.00%'' \<and>
   toFixed (1 / 3 * 100) precision = Some ''33.33'' \<and>
   displayPercent (1 / 3) = Some ''33.33%''"
proof -
  have t: "toFixed (1 / 3 * 100) precision = Some ''33.33''"
    by (simp add: format_eval)
  from displayPercent_policy [of "9999999 / 10000000"]
  have a: "displayPercent (9999999 / 10000000) = Some ''100.00%''" by simp
  from displayPercent_policy [of 1]
  have b: "displayPercent 1 = Some ''100.00%''" by simp
  from displayPercent_policy [of "1 / 3"] t
  have c: "displayPercent (1 / 3) = Some ''33.33%''" by simp
  from a b c t show ?thesis by simp
qed

subsection \<open>Keys of insertion and of lookup\<close>

text \<open>
  Evaluation of the tree functions on given files.
\<close>

lemmas tree_eval = createFileCoverage_def insertFiles_def computeNodes_def treePathForUri_def
  FileCoverage_new_def AbstractFileCoverage_new_def ComputedFileCoverage_new_def
  treePathToUri_def URI_from_def element_def emptyCounts_def sumCounts_def sumInto_def
  AbstractFileCoverage.extend_def FileCoverage.fields_def AbstractFileCoverage.truncate_def
  getUri_def upt_rec Let_def

text \<open>
  Claim C1 says that \<^verbatim>\<open>getUri\<close> looks a resource identifier up under the key it
  was inserted with, scheme and authority first.  The insertion uses
  \<^verbatim>\<open>treePathForUri\<close>; \<^verbatim>\<open>getUri\<close> uses the segments of the path alone.  For the
  one file \<^verbatim>\<open>file:///a/b.ts\<close> the leaf is at the key of the insertion, and
  \<^verbatim>\<open>getUri\<close> finds nothing.
\<close>

theorem getUri_misses_inserted_leaf:
  "map_option node_value
     (find_tree
        (treePathForUri \<lparr> scheme = ''file'', authority = [], path = ''/a/b.ts'' \<rparr>)
        (createFileCoverage
           [\<lparr> uri = \<lparr> scheme = ''file'', authority = [], path = ''/a/b.ts'' \<rparr>,
              statement = \<lparr> covered = 1, total = 2 \<rparr>, branch = None, func = None,
              details = None \<rparr>])) =
   Some (Some (File (FileCoverage_new
           \<lparr> uri = \<lparr> scheme = ''file'', authority = [], path = ''/a/b.ts'' \<rparr>,
              statement = \<lparr> covered = 1, total = 2 \<rparr>, branch = None, func = None,
              details = None \<rparr> 0))) \<and>
   getUri
     (createFileCoverage
        [\<lparr> uri = \<lparr> scheme = ''file'', authority = [], path = ''/a/b.ts'' \<rparr>,
           statement = \<lparr> covered = 1, total = 2 \<rparr>, branch = None, func = None,
           details = None \<rparr>])
     \<lparr> scheme = ''file'', authority = [], path = ''/a/b.ts'' \<rparr> = None"
  by (simp add: tree_eval)

subsection \<open>The index of a file\<close>

lemmas details_eval = details_exec_def details_init_def details_enter_def details_resume_def settle_def

text \<open>
  Claim C3 says that the leaf of the \<open>i\<close>-th record stores the index \<open>i\<close> and
  resolves its details with it.  The first loop constructs every leaf with the
  index \<open>0\<close>: of two files, the leaf of the second (position 1) has the index
  \<open>0\<close>, and its first call of \<^verbatim>\<open>details\<close> asks the resolver for file \<open>0\<close>.
\<close>

theorem createFileCoverage_index_always_zero:
  "(case find_tree
        (treePathForUri \<lparr> scheme = ''file'', authority = [], path = ''/b.ts'' \<rparr>)
        (createFileCoverage
           [\<lparr> uri = \<lparr> scheme = ''file'', authority = [], path = ''/a.ts'' \<rparr>,
              statement = \<lparr> covered = 1, total = 2 \<rparr>, branch = None, func = None,
              details = None \<rparr>,
            \<lparr> uri = \<lparr> scheme = ''file'', authority = [], path = ''/b.ts'' \<rparr>,
              statement = \<lparr> covered = 3, total = 4 \<rparr>, branch = None, func = None,
              details = None \<rparr>]) of
      Some (Node (Some (File l)) cs) \<Rightarrow>
        n_uri l = \<lparr> scheme = ''file'', authority = [], path = ''/b.ts'' \<rparr> \<and>
        index l = 0 \<and>
        resolveFileCoverage_calls (details_exec l [CallDetails]) = [0]
    | _ \<Rightarrow> False)"
  by (simp add: tree_eval details_eval)

subsection \<open>Aggregation\<close>

lemma calculateComputed_valued:
  "node_value n = Some v \<Longrightarrow> calculateComputed p n = (v, n)"
  by (cases n) simp

lemma calculateComputed_stores:
  "node_value (snd (calculateComputed p n)) = Some (fst (calculateComputed p n))"
proof (cases n)
  case (Node x cs)
  then show ?thesis
    by (cases x) (simp_all add: Let_def split: prod.splits)
qed

lemma sum_of_snoc: "sum_of (xs @ [x]) = sumCounts (sum_of xs) x"
  by (simp add: sum_of_def sumCounts_def)

lemma sum_of_Nil: "sum_of [] = emptyCounts"
  by (simp add: sum_of_def emptyCounts_def)

lemma sumCounts_sum_of: "sumCounts (sumCounts t x) (sum_of xs) = sumCounts t (sum_of (x # xs))"
  by (simp add: sum_of_def sumCounts_def)

lemma sumCounts_empty: "sumCounts t emptyCounts = t" "sumCounts emptyCounts t = t"
  by (simp_all add: sumCounts_def emptyCounts_def)

lemma present_simps:
  "present [] = []" "present (None # os) = present os" "present (Some y # os) = y # present os"
  by (simp_all add: present_def)

lemma add_present_Cons:
  "add_present slot (None # os) = add_present slot os"
  "add_present slot (Some b # os) = add_present (sumInto slot b) os"
  by (auto simp: add_present_def present_simps sumInto_def sumCounts_sum_of sumCounts_def sum_of_def split: option.splits)

lemma sumChildren_spec:
  "sumChildren p fc cs =
     (fc\<lparr> statement := sumCounts (statement fc)
             (sum_of (map (\<lambda>(k, c). n_statement (abstract (fst (calculateComputed (p @ [k]) c)))) cs)),
          branch := add_present (branch fc)
             (map (\<lambda>(k, c). n_branch (abstract (fst (calculateComputed (p @ [k]) c)))) cs),
          func := add_present (func fc)
             (map (\<lambda>(k, c). n_func (abstract (fst (calculateComputed (p @ [k]) c)))) cs) \<rparr>,
      map (\<lambda>(k, c). (k, snd (calculateComputed (p @ [k]) c))) cs)"
proof (induction cs arbitrary: fc)
  case Nil
  show ?case
    by (simp add: sum_of_Nil sumCounts_empty add_present_def present_simps)
next
  case (Cons kc cs)
  obtain k c where kc: "kc = (k, c)" by (cases kc)
  show ?case
    unfolding kc
    by (simp add: Cons.IH Let_def add_present_Cons sumCounts_sum_of split: prod.splits option.splits)
qed

lemma child_values_computed:
  "child_values (map (\<lambda>(k, c). (k, snd (calculateComputed (p @ [k]) c))) cs) =
   map (\<lambda>(k, c). abstract (fst (calculateComputed (p @ [k]) c))) cs"
  by (induction cs) (auto simp: child_values_def calculateComputed_stores)

lemma constructed_func: "constructed v \<Longrightarrow> n_func (abstract v) = n_branch (abstract v)"
  by (auto simp: constructed_def AbstractFileCoverage_new_def)

lemma constructed_File: "constructed (File (FileCoverage_new r i))"
  unfolding constructed_def
  by (rule exI [of _ r])
     (simp add: FileCoverage_new_def AbstractFileCoverage.truncate_def
        AbstractFileCoverage.extend_def AbstractFileCoverage_new_def)

lemma constructed_Computed: "constructed (Computed (ComputedFileCoverage_new r))"
  unfolding constructed_def by (auto simp: ComputedFileCoverage_new_def)

lemma calculateComputed_constructed:
  assumes "\<forall>v \<in> set_Node c. constructed v"
  shows "constructed (fst (calculateComputed q c))"
proof (cases c)
  case (Node x cs)
  show ?thesis
  proof (cases x)
    case None
    with Node show ?thesis
      by (simp add: Let_def constructed_Computed split: prod.splits)
  next
    case (Some v)
    with Node assms show ?thesis by simp
  qed
qed

lemma sum_present_present:
  "(sum_present os \<noteq> None) = (\<exists>x \<in> set os. x \<noteq> None)"
  by (induction os) (auto simp: sum_present_def present_def split: option.splits)

lemma add_present_None: "add_present None os = sum_present os"
  by (simp add: add_present_def sum_present_def sumCounts_empty)

lemma calculateComputed_None:
  "calculateComputed p (Node None cs) =
     (let vs = map (\<lambda>(k, c). abstract (fst (calculateComputed (p @ [k]) c))) cs;
          a = ComputedFileCoverage_new
                \<lparr> uri = treePathToUri p, statement = sum_of (map n_statement vs),
                  branch = sum_present (map n_branch vs),
                  func = sum_present (map n_func vs), details = None \<rparr>
      in (Computed a, Node (Some (Computed a))
            (map (\<lambda>(k, c). (k, snd (calculateComputed (p @ [k]) c))) cs)))"
  by (simp add: sumChildren_spec Let_def sumCounts_empty add_present_None comp_def split_def)

text \<open>
  Every value of a tree built by \<^verbatim>\<open>createFileCoverage\<close> was made by a
  constructor, at every moment of the construction.
\<close>

lemma snd_set_update:
  "snd ` set (AList.update k v al) \<subseteq> insert v (snd ` set al)"
  by (induction al) auto

lemma set_Node_children:
  "set_Node (Node x cs) = set_option x \<union> \<Union> (set_Node ` snd ` set cs)"
  by auto

lemma set_Node_update:
  "set_Node (Node x (AList.update k c' cs)) \<subseteq> set_Node c' \<union> set_Node (Node x cs)"
proof -
  have "\<Union> (set_Node ` snd ` set (AList.update k c' cs)) \<subseteq>
        \<Union> (set_Node ` insert c' (snd ` set cs))"
    by (intro Union_mono image_mono snd_set_update)
  then show ?thesis
    unfolding set_Node_children by auto
qed

lemma set_Node_child:
  assumes "map_of cs k = Some c"
  shows "set_Node c \<subseteq> set_Node (Node x cs)"
proof -
  from assms have "(k, c) \<in> set cs" by (rule map_of_SomeD)
  then show ?thesis by force
qed

lemma set_Node_insert_tree:
  "set_Node (insert_tree ks v t) \<subseteq> insert v (set_Node t)"
proof (induction ks v t rule: insert_tree.induct)
  case (1 v x cs)
  show ?case by auto
next
  case (2 k ks v x cs)
  show ?case
  proof (cases "map_of cs k")
    case None
    with 2(1) show ?thesis by auto
  next
    case (Some c)
    from 2(2) [OF Some] have ih: "set_Node (insert_tree ks v c) \<subseteq> insert v (set_Node c)" .
    have "set_Node (insert_tree (k # ks) v (Node x cs)) \<subseteq>
          set_Node (insert_tree ks v c) \<union> set_Node (Node x cs)"
      using Some set_Node_update [of x k "insert_tree ks v c" cs] by simp
    also have "\<dots> \<subseteq> insert v (set_Node c) \<union> set_Node (Node x cs)"
      using ih by (rule Un_mono) (rule subset_refl)
    also have "\<dots> \<subseteq> insert v (set_Node (Node x cs))"
      using set_Node_child [OF Some, of x] by (intro Un_least insert_mono subset_insertI)
    finally show ?thesis .
  qed
qed

lemma all_constructed_insert_tree:
  assumes "all_constructed t" "constructed v"
  shows "all_constructed (insert_tree ks v t)"
  unfolding all_constructed_def
proof
  fix w assume "w \<in> set_Node (insert_tree ks v t)"
  with set_Node_insert_tree [of ks v t] have "w = v \<or> w \<in> set_Node t" by (simp add: subset_iff)
  with assms show "constructed w" by (auto simp: all_constructed_def)
qed

lemma all_constructed_insertFiles: "all_constructed (insertFiles files)"
proof -
  have "all_constructed (foldl (\<lambda>tree i.
              let file = files ! i
              in insert_tree (treePathForUri (uri file)) (File (FileCoverage_new file 0)) tree)
       t is)" if "all_constructed t" for t "is"
    using that
    by (induction "is" arbitrary: t) (simp_all add: Let_def all_constructed_insert_tree constructed_File)
  moreover have "all_constructed (Node None [])"
    by (simp add: all_constructed_def)
  ultimately show ?thesis
    unfolding insertFiles_def by blast
qed

lemma set_Node_find_tree:
  "find_tree p t = Some n \<Longrightarrow> set_Node n \<subseteq> set_Node t"
proof (induction p t rule: find_tree.induct)
  case (1 n')
  then show ?case by simp
next
  case (2 k ks x cs)
  then obtain c where c: "map_of cs k = Some c" and f: "find_tree ks c = Some n"
    by (auto split: option.splits)
  from 2(1) [OF c f] set_Node_child [OF c, of x] show ?case
    by (rule subset_trans)
qed

lemma set_Node_put_tree:
  "set_Node (put_tree p n' t) \<subseteq> set_Node n' \<union> set_Node t"
proof (induction p n' t rule: put_tree.induct)
  case (1 n' n)
  show ?case by simp
next
  case (2 k ks n' x cs)
  show ?case
  proof (cases "map_of cs k")
    case None
    then show ?thesis by simp
  next
    case (Some c)
    from 2 [OF Some] have ih: "set_Node (put_tree ks n' c) \<subseteq> set_Node n' \<union> set_Node c" .
    have "set_Node (put_tree (k # ks) n' (Node x cs)) \<subseteq>
          set_Node (put_tree ks n' c) \<union> set_Node (Node x cs)"
      using Some set_Node_update [of x k "put_tree ks n' c" cs] by simp
    also have "\<dots> \<subseteq> (set_Node n' \<union> set_Node c) \<union> set_Node (Node x cs)"
      using ih by (rule Un_mono) (rule subset_refl)
    also have "\<dots> \<subseteq> set_Node n' \<union> set_Node (Node x cs)"
      using set_Node_child [OF Some, of x] by (intro Un_least Un_upper1 Un_upper2 le_supI2)
    finally show ?thesis .
  qed
qed

lemma all_constructed_calculateComputed:
  "all_constructed n \<Longrightarrow> all_constructed (snd (calculateComputed p n))"
proof (induction n arbitrary: p)
  case (Node x cs)
  show ?case
  proof (cases x)
    case (Some v)
    with Node.prems show ?thesis by simp
  next
    case None
    have kids: "all_constructed (snd (calculateComputed q c))" if "(k, c) \<in> set cs" for k c q
    proof -
      from that have "set_Node c \<subseteq> set_Node (Node x cs)" by force
      with Node.prems have "all_constructed c"
        unfolding all_constructed_def by blast
      moreover from that have "(k, c) \<in> set cs" "c \<in> Basic_BNFs.snds (k, c)" by simp_all
      ultimately show ?thesis using Node.IH by blast
    qed
    obtain a where res: "snd (calculateComputed p (Node None cs)) =
        Node (Some (Computed (ComputedFileCoverage_new a)))
          (map (\<lambda>(k, c). (k, snd (calculateComputed (p @ [k]) c))) cs)"
      unfolding calculateComputed_None Let_def by simp
    show ?thesis
      unfolding None res all_constructed_def
    proof
      fix w
      assume "w \<in> set_Node (Node (Some (Computed (ComputedFileCoverage_new a)))
          (map (\<lambda>(k, c). (k, snd (calculateComputed (p @ [k]) c))) cs))"
      then consider "w = Computed (ComputedFileCoverage_new a)"
        | k c where "(k, c) \<in> set cs" "w \<in> set_Node (snd (calculateComputed (p @ [k]) c))"
        by auto
      then show "constructed w"
      proof cases
        case 1
        then show ?thesis by (simp add: constructed_Computed)
      next
        case 2
        with kids [of k c "p @ [k]"] show ?thesis by (simp add: all_constructed_def)
      qed
    qed
  qed
qed

lemma all_constructed_computeNodes:
  assumes "all_constructed t"
  shows "all_constructed (computeNodes t)"
proof -
  have step: "all_constructed (case find_tree p t of
                     None \<Rightarrow> t
                   | Some node \<Rightarrow> put_tree p (snd (calculateComputed [] node)) t)"
    if "all_constructed t" for t p
  proof (cases "find_tree p t")
    case None
    with that show ?thesis by simp
  next
    case (Some node)
    from set_Node_find_tree [OF Some] that have "all_constructed node"
      unfolding all_constructed_def by blast
    then have "all_constructed (snd (calculateComputed [] node))"
      by (rule all_constructed_calculateComputed)
    with that set_Node_put_tree [of p "snd (calculateComputed [] node)" t]
    have "all_constructed (put_tree p (snd (calculateComputed [] node)) t)"
      unfolding all_constructed_def by blast
    with Some show ?thesis by simp
  qed
  have "all_constructed (foldl (\<lambda>t p. case find_tree p t of
                     None \<Rightarrow> t
                   | Some node \<Rightarrow> put_tree p (snd (calculateComputed [] node)) t) t ps)"
    if "all_constructed t" for t ps
    using that by (induction ps arbitrary: t) (simp_all add: step)
  with assms show ?thesis unfolding computeNodes_def by blast
qed

lemma all_constructed_createFileCoverage: "all_constructed (createFileCoverage files)"
  unfolding createFileCoverage_def
  by (intro all_constructed_computeNodes all_constructed_insertFiles)

text \<open>
  What \<^verbatim>\<open>calculateComputed\<close> does at a position, for every position and path.
\<close>

lemma calculateComputed_sums:
  "(\<forall>v. node_value n = Some v \<longrightarrow> calculateComputed p n = (v, n)) \<and>
   (node_value n = None \<longrightarrow>
      (\<exists>a cs'. calculateComputed p n = (Computed a, Node (Some (Computed a)) cs') \<and>
         map fst cs' = map fst (children n) \<and>
         length (child_values cs') = length cs' \<and>
         n_statement a = sum_of (map n_statement (child_values cs')) \<and>
         n_branch a = sum_present (map n_branch (child_values cs')) \<and>
         (n_branch a \<noteq> None) = (\<exists>v \<in> set (child_values cs'). n_branch v \<noteq> None) \<and>
         ((\<forall>v \<in> set_Node n. constructed v) \<longrightarrow>
            n_func a = sum_present (map n_func (child_values cs')) \<and>
            (n_func a \<noteq> None) = (\<exists>v \<in> set (child_values cs'). n_func v \<noteq> None))))"
proof (intro conjI allI impI)
  fix v assume "node_value n = Some v"
  then show "calculateComputed p n = (v, n)" by (rule calculateComputed_valued)
next
  assume none: "node_value n = None"
  obtain cs where n: "n = Node None cs" using none by (cases n) simp
  define vs where "vs = map (\<lambda>(k, c). abstract (fst (calculateComputed (p @ [k]) c))) cs"
  define cs' where "cs' = map (\<lambda>(k, c). (k, snd (calculateComputed (p @ [k]) c))) cs"
  define a where "a = ComputedFileCoverage_new
                \<lparr> uri = treePathToUri p, statement = sum_of (map n_statement vs),
                  branch = sum_present (map n_branch vs),
                  func = sum_present (map n_func vs), details = None \<rparr>"
  have res: "calculateComputed p n = (Computed a, Node (Some (Computed a)) cs')"
    unfolding n calculateComputed_None by (simp add: Let_def vs_def cs'_def a_def)
  have cv: "child_values cs' = vs"
    unfolding cs'_def vs_def by (rule child_values_computed)
  have keys: "map fst cs' = map fst (children n)"
    unfolding cs'_def n by (simp add: comp_def case_prod_beta)
  have len: "length (child_values cs') = length cs'"
    unfolding cv by (simp add: vs_def cs'_def)
  have st: "n_statement a = sum_of (map n_statement (child_values cs'))"
    unfolding cv by (simp add: a_def ComputedFileCoverage_new_def AbstractFileCoverage_new_def)
  have br: "n_branch a = sum_present (map n_branch (child_values cs'))"
    unfolding cv by (simp add: a_def ComputedFileCoverage_new_def AbstractFileCoverage_new_def)
  have brp: "(n_branch a \<noteq> None) = (\<exists>v \<in> set (child_values cs'). n_branch v \<noteq> None)"
    unfolding br sum_present_present by auto
  have fn: "n_func a = sum_present (map n_func (child_values cs')) \<and>
            (n_func a \<noteq> None) = (\<exists>v \<in> set (child_values cs'). n_func v \<noteq> None)"
    if wf: "\<forall>v \<in> set_Node n. constructed v"
  proof -
    have "n_func v = n_branch v" if "v \<in> set vs" for v
    proof -
      from that obtain k c where kc: "(k, c) \<in> set cs"
        and v: "v = abstract (fst (calculateComputed (p @ [k]) c))"
        unfolding vs_def by auto
      from kc wf have "\<forall>w \<in> set_Node c. constructed w"
        unfolding n by fastforce
      from calculateComputed_constructed [OF this] show ?thesis
        unfolding v by (rule constructed_func)
    qed
    then have eq: "map n_func vs = map n_branch vs" by simp
    have "n_func a = n_branch a"
      by (simp add: a_def ComputedFileCoverage_new_def AbstractFileCoverage_new_def)
    then have f: "n_func a = sum_present (map n_func (child_values cs'))"
      using br unfolding cv eq by simp
    moreover have "(n_func a \<noteq> None) = (\<exists>v \<in> set (child_values cs'). n_func v \<noteq> None)"
      unfolding f sum_present_present by auto
    ultimately show ?thesis by simp
  qed
  show "\<exists>a cs'. calculateComputed p n = (Computed a, Node (Some (Computed a)) cs') \<and>
         map fst cs' = map fst (children n) \<and>
         length (child_values cs') = length cs' \<and>
         n_statement a = sum_of (map n_statement (child_values cs')) \<and>
         n_branch a = sum_present (map n_branch (child_values cs')) \<and>
         (n_branch a \<noteq> None) = (\<exists>v \<in> set (child_values cs'). n_branch v \<noteq> None) \<and>
         ((\<forall>v \<in> set_Node n. constructed v) \<longrightarrow>
            n_func a = sum_present (map n_func (child_values cs')) \<and>
            (n_func a \<noteq> None) = (\<exists>v \<in> set (child_values cs'). n_func v \<noteq> None))"
    using res keys len st br brp fn by blast
qed

text \<open>
  The example: the files \<^verbatim>\<open>file:///a/b/x\<close> with statement 1 of 2 and
  \<^verbatim>\<open>file:///a/b/y\<close> with statement 3 of 4.
\<close>

lemma aggregate_example:
  "map_option (map_option (\<lambda>v. (n_statement (abstract v), n_branch (abstract v), n_func (abstract v)))
       \<circ> node_value)
     (find_tree [''file'', [], [], ''a'', ''b'']
        (createFileCoverage
           [\<lparr> uri = \<lparr> scheme = ''file'', authority = [], path = ''/a/b/x'' \<rparr>,
              statement = \<lparr> covered = 1, total = 2 \<rparr>, branch = None, func = None,
              details = None \<rparr>,
            \<lparr> uri = \<lparr> scheme = ''file'', authority = [], path = ''/a/b/y'' \<rparr>,
              statement = \<lparr> covered = 3, total = 4 \<rparr>, branch = None, func = None,
              details = None \<rparr>])) =
     Some (Some (\<lparr> covered = 4, total = 6 \<rparr>, None, None)) \<and>
   map_option (map_option (\<lambda>v. (n_statement (abstract v), n_branch (abstract v), n_func (abstract v)))
       \<circ> node_value)
     (find_tree [''file'', [], [], ''a'']
        (createFileCoverage
           [\<lparr> uri = \<lparr> scheme = ''file'', authority = [], path = ''/a/b/x'' \<rparr>,
              statement = \<lparr> covered = 1, total = 2 \<rparr>, branch = None, func = None,
              details = None \<rparr>,
            \<lparr> uri = \<lparr> scheme = ''file'', authority = [], path = ''/a/b/y'' \<rparr>,
              statement = \<lparr> covered = 3, total = 4 \<rparr>, branch = None, func = None,
              details = None \<rparr>])) =
     Some (Some (\<lparr> covered = 4, total = 6 \<rparr>, None, None))"
  by (simp add: tree_eval)

text \<open>
  Claim C6 says that a category is present in an aggregate exactly when at
  least one descendant has it.  A leaf is returned as it is, so what lies below
  a leaf does not reach the aggregates above it: of the files
  \<^verbatim>\<open>file://h/a\<close> (no branch count) and \<^verbatim>\<open>file://h/a/b\<close> (branch 1 of 2), the
  position above \<open>a\<close> holds no value after the insertion, its aggregate has no
  branch count, and its descendant \<open>a/b\<close> has one.
\<close>

theorem aggregate_ignores_descendants_below_leaf:
  "map_option node_value
     (find_tree [''file'', ''h'', []]
        (insertFiles
           [\<lparr> uri = \<lparr> scheme = ''file'', authority = ''h'', path = ''/a'' \<rparr>,
              statement = \<lparr> covered = 1, total = 1 \<rparr>, branch = None, func = None,
              details = None \<rparr>,
            \<lparr> uri = \<lparr> scheme = ''file'', authority = ''h'', path = ''/a/b'' \<rparr>,
              statement = \<lparr> covered = 1, total = 1 \<rparr>,
              branch = Some \<lparr> covered = 1, total = 2 \<rparr>, func = None,
              details = None \<rparr>])) = Some None \<and>
   map_option (map_option (n_branch \<circ> abstract) \<circ> node_value)
     (find_tree [''file'', ''h'', []]
        (createFileCoverage
           [\<lparr> uri = \<lparr> scheme = ''file'', authority = ''h'', path = ''/a'' \<rparr>,
              statement = \<lparr> covered = 1, total = 1 \<rparr>, branch = None, func = None,
              details = None \<rparr>,
            \<lparr> uri = \<lparr> scheme = ''file'', authority = ''h'', path = ''/a/b'' \<rparr>,
              statement = \<lparr> covered = 1, total = 1 \<rparr>,
              branch = Some \<lparr> covered = 1, total = 2 \<rparr>, func = None,
              details = None \<rparr>])) = Some (Some None) \<and>
   map_option (map_option (n_branch \<circ> abstract) \<circ> node_value)
     (find_tree [''file'', ''h'', [], ''a'', ''b'']
        (createFileCoverage
           [\<lparr> uri = \<lparr> scheme = ''file'', authority = ''h'', path = ''/a'' \<rparr>,
              statement = \<lparr> covered = 1, total = 1 \<rparr>, branch = None, func = None,
              details = None \<rparr>,
            \<lparr> uri = \<lparr> scheme = ''file'', authority = ''h'', path = ''/a/b'' \<rparr>,
              statement = \<lparr> covered = 1, total = 1 \<rparr>,
              branch = Some \<lparr> covered = 1, total = 2 \<rparr>, func = None,
              details = None \<rparr>])) = Some (Some (Some \<lparr> covered = 1, total = 2 \<rparr>))"
  by (simp add: tree_eval)

text \<open>
  Claim C6, amended: a position that holds a value is returned unchanged; at a
  position without a value the pass stores an aggregate whose statement count
  is the componentwise sum of the statement counts of its children, whose
  branch count is the componentwise sum over the children that have one,
  present exactly when at least one child has one, and likewise for the
  function count when every value at and below the position was made by a
  constructor of the class (as every value of a tree of
  \<^verbatim>\<open>createFileCoverage\<close> is).  In the example the aggregate at \<open>a/b\<close> has
  statement 4 of 6, and the aggregate at \<open>a\<close> has the same counts.
\<close>

theorem calculateComputed_aggregate:
  "((\<forall>v. node_value n = Some v \<longrightarrow> calculateComputed p n = (v, n)) \<and>
   (node_value n = None \<longrightarrow>
      (\<exists>a cs'. calculateComputed p n = (Computed a, Node (Some (Computed a)) cs') \<and>
         map fst cs' = map fst (children n) \<and>
         length (child_values cs') = length cs' \<and>
         n_statement a = sum_of (map n_statement (child_values cs')) \<and>
         n_branch a = sum_present (map n_branch (child_values cs')) \<and>
         (n_branch a \<noteq> None) = (\<exists>v \<in> set (child_values cs'). n_branch v \<noteq> None) \<and>
         ((\<forall>v \<in> set_Node n. constructed v) \<longrightarrow>
            n_func a = sum_present (map n_func (child_values cs')) \<and>
            (n_func a \<noteq> None) = (\<exists>v \<in> set (child_values cs'). n_func v \<noteq> None))))) \<and>
   map_option (map_option (\<lambda>v. (n_statement (abstract v), n_branch (abstract v), n_func (abstract v)))
       \<circ> node_value)
     (find_tree [''file'', [], [], ''a'', ''b'']
        (createFileCoverage
           [\<lparr> uri = \<lparr> scheme = ''file'', authority = [], path = ''/a/b/x'' \<rparr>,
              statement = \<lparr> covered = 1, total = 2 \<rparr>, branch = None, func = None,
              details = None \<rparr>,
            \<lparr> uri = \<lparr> scheme = ''file'', authority = [], path = ''/a/b/y'' \<rparr>,
              statement = \<lparr> covered = 3, total = 4 \<rparr>, branch = None, func = None,
              details = None \<rparr>])) =
     Some (Some (\<lparr> covered = 4, total = 6 \<rparr>, None, None)) \<and>
   map_option (map_option (\<lambda>v. (n_statement (abstract v), n_branch (abstract v), n_func (abstract v)))
       \<circ> node_value)
     (find_tree [''file'', [], [], ''a'']
        (createFileCoverage
           [\<lparr> uri = \<lparr> scheme = ''file'', authority = [], path = ''/a/b/x'' \<rparr>,
              statement = \<lparr> covered = 1, total = 2 \<rparr>, branch = None, func = None,
              details = None \<rparr>,
            \<lparr> uri = \<lparr> scheme = ''file'', authority = [], path = ''/a/b/y'' \<rparr>,
              statement = \<lparr> covered = 3, total = 4 \<rparr>, branch = None, func = None,
              details = None \<rparr>])) =
     Some (Some (\<lparr> covered = 4, total = 6 \<rparr>, None, None))"
  by (rule conjI [OF calculateComputed_sums aggregate_example])

text \<open>
  The theorem at the leaf \<open>x\<close> and at the position \<open>a/b\<close> above the leaves \<open>x\<close>
  (statement 1 of 2, branch 1 of 1) and \<open>y\<close> (statement 3 of 4).
\<close>

theorem calculateComputed_aggregate_witness:
  "calculateComputed [''file'', [], [], ''a'', ''b'', ''x'']
     (Node (Some (File (FileCoverage_new
        \<lparr> uri = \<lparr> scheme = ''file'', authority = [], path = ''/a/b/x'' \<rparr>,
          statement = \<lparr> covered = 1, total = 2 \<rparr>, branch = None, func = None,
          details = None \<rparr> 0))) []) =
     (File (FileCoverage_new
        \<lparr> uri = \<lparr> scheme = ''file'', authority = [], path = ''/a/b/x'' \<rparr>,
          statement = \<lparr> covered = 1, total = 2 \<rparr>, branch = None, func = None,
          details = None \<rparr> 0),
      Node (Some (File (FileCoverage_new
        \<lparr> uri = \<lparr> scheme = ''file'', authority = [], path = ''/a/b/x'' \<rparr>,
          statement = \<lparr> covered = 1, total = 2 \<rparr>, branch = None, func = None,
          details = None \<rparr> 0))) []) \<and>
   n_statement (abstract (fst (calculateComputed [''file'', [], [], ''a'', ''b'']
     (Node None
        [(''x'', Node (Some (File (FileCoverage_new
            \<lparr> uri = \<lparr> scheme = ''file'', authority = [], path = ''/a/b/x'' \<rparr>,
              statement = \<lparr> covered = 1, total = 2 \<rparr>,
              branch = Some \<lparr> covered = 1, total = 1 \<rparr>, func = None,
              details = None \<rparr> 0))) []),
         (''y'', Node (Some (File (FileCoverage_new
            \<lparr> uri = \<lparr> scheme = ''file'', authority = [], path = ''/a/b/y'' \<rparr>,
              statement = \<lparr> covered = 3, total = 4 \<rparr>, branch = None, func = None,
              details = None \<rparr> 0))) [])])))) = \<lparr> covered = 4, total = 6 \<rparr> \<and>
   n_branch (abstract (fst (calculateComputed [''file'', [], [], ''a'', ''b'']
     (Node None
        [(''x'', Node (Some (File (FileCoverage_new
            \<lparr> uri = \<lparr> scheme = ''file'', authority = [], path = ''/a/b/x'' \<rparr>,
              statement = \<lparr> covered = 1, total = 2 \<rparr>,
              branch = Some \<lparr> covered = 1, total = 1 \<rparr>, func = None,
              details = None \<rparr> 0))) []),
         (''y'', Node (Some (File (FileCoverage_new
            \<lparr> uri = \<lparr> scheme = ''file'', authority = [], path = ''/a/b/y'' \<rparr>,
              statement = \<lparr> covered = 3, total = 4 \<rparr>, branch = None, func = None,
              details = None \<rparr> 0))) [])])))) = Some \<lparr> covered = 1, total = 1 \<rparr> \<and>
   n_func (abstract (fst (calculateComputed [''file'', [], [], ''a'', ''b'']
     (Node None
        [(''x'', Node (Some (File (FileCoverage_new
            \<lparr> uri = \<lparr> scheme = ''file'', authority = [], path = ''/a/b/x'' \<rparr>,
              statement = \<lparr> covered = 1, total = 2 \<rparr>,
              branch = Some \<lparr> covered = 1, total = 1 \<rparr>, func = None,
              details = None \<rparr> 0))) []),
         (''y'', Node (Some (File (FileCoverage_new
            \<lparr> uri = \<lparr> scheme = ''file'', authority = [], path = ''/a/b/y'' \<rparr>,
              statement = \<lparr> covered = 3, total = 4 \<rparr>, branch = None, func = None,
              details = None \<rparr> 0))) [])])))) =
     sum_present
       [n_func (AbstractFileCoverage_new
            \<lparr> uri = \<lparr> scheme = ''file'', authority = [], path = ''/a/b/x'' \<rparr>,
              statement = \<lparr> covered = 1, total = 2 \<rparr>,
              branch = Some \<lparr> covered = 1, total = 1 \<rparr>, func = None,
              details = None \<rparr>),
        n_func (AbstractFileCoverage_new
            \<lparr> uri = \<lparr> scheme = ''file'', authority = [], path = ''/a/b/y'' \<rparr>,
              statement = \<lparr> covered = 3, total = 4 \<rparr>, branch = None, func = None,
              details = None \<rparr>)]"
  using
    calculateComputed_aggregate [of
      "Node (Some (File (FileCoverage_new
        \<lparr> uri = \<lparr> scheme = ''file'', authority = [], path = ''/a/b/x'' \<rparr>,
          statement = \<lparr> covered = 1, total = 2 \<rparr>, branch = None, func = None,
          details = None \<rparr> 0))) []"
      "[''file'', [], [], ''a'', ''b'', ''x'']"]
    calculateComputed_aggregate [of
      "Node None
        [(''x'', Node (Some (File (FileCoverage_new
            \<lparr> uri = \<lparr> scheme = ''file'', authority = [], path = ''/a/b/x'' \<rparr>,
              statement = \<lparr> covered = 1, total = 2 \<rparr>,
              branch = Some \<lparr> covered = 1, total = 1 \<rparr>, func = None,
              details = None \<rparr> 0))) []),
         (''y'', Node (Some (File (FileCoverage_new
            \<lparr> uri = \<lparr> scheme = ''file'', authority = [], path = ''/a/b/y'' \<rparr>,
              statement = \<lparr> covered = 3, total = 4 \<rparr>, branch = None, func = None,
              details = None \<rparr> 0))) [])]"
      "[''file'', [], [], ''a'', ''b'']"]
  by (simp add: tree_eval sum_present_def present_def sum_of_def)

subsection \<open>Details of a file that came with its record\<close>

lemma settle_length [simp]: "length (settle k r ps) = length ps"
  by (simp add: settle_def)

lemma settle_Nil [simp]: "settle k r [] = []"
  by (simp add: settle_def)

lemma settle_nth:
  "j < length ps \<Longrightarrow> settle k r ps ! j = (if j = k \<and> ps ! k = Pending then r else ps ! j)"
  by (simp add: settle_def)

lemma details_resume_length [simp]:
  "length (details_calls (details_resume t s)) = length (details_calls s)"
  by (simp add: details_resume_def split: activation.splits details_slot.splits promise.splits)

lemma details_step_calls_length:
  "length (details_calls (details_step s e)) =
     length (details_calls s) + (if e = CallDetails then 1 else 0)"
  by (cases e) (simp_all add: details_enter_def Let_def split: option.splits)

lemma details_exec_calls_length:
  "length (details_calls (foldl details_step s es)) =
     length (details_calls s) + length (filter (\<lambda>e. e = CallDetails) es)"
  by (induction es arbitrary: s) (simp_all add: details_step_calls_length)

lemma inline_inv_resume:
  assumes "inline_inv ds s"
  shows "inline_inv ds (details_resume t s)"
proof (cases "t < length (details_calls s)")
  case False
  with assms show ?thesis by (simp add: details_resume_def)
next
  case True
  then have mem: "details_calls s ! t \<in> set (details_calls s)" by simp
  with assms consider "details_calls s ! t = Awaiting (DetailsArray ds)"
    | "details_calls s ! t = Returned ds"
    by (auto simp: inline_inv_def)
  then show ?thesis
  proof cases
    case 1
    have "set ((details_calls s)[t := Returned ds]) \<subseteq> insert (Returned ds) (set (details_calls s))"
      by (rule set_update_subset_insert)
    with assms 1 True show ?thesis
      by (auto simp: inline_inv_def details_resume_def)
  next
    case 2
    with assms True show ?thesis by (simp add: details_resume_def)
  qed
qed

lemma inline_inv_step:
  assumes "inline_inv ds s"
  shows "inline_inv ds (details_step s e)"
proof (cases e)
  case CallDetails
  with assms show ?thesis by (auto simp: inline_inv_def details_enter_def)
next
  case (ResolverFulfils k a)
  with assms show ?thesis by (simp add: inline_inv_def)
next
  case (ResolverRejects k e)
  with assms show ?thesis by (simp add: inline_inv_def)
next
  case (ResumeDetails t)
  with assms show ?thesis by (simp add: inline_inv_resume)
qed

lemma inline_inv_exec:
  "inline_inv ds s \<Longrightarrow> inline_inv ds (foldl details_step s es)"
  by (induction es arbitrary: s) (simp_all add: inline_inv_step)

lemma inline_inv_init:
  "details coverage = Some ds \<Longrightarrow> inline_inv ds (details_init (FileCoverage_new coverage i))"
  by (simp add: inline_inv_def details_init_def FileCoverage_new_def
      AbstractFileCoverage.extend_def FileCoverage.fields_def)

lemma inline_inv_returns:
  assumes "inline_inv ds s" "t < length (details_calls s)"
  shows "details_calls (details_resume t s) ! t = Returned ds"
proof -
  from assms have "details_calls s ! t = Awaiting (DetailsArray ds) \<or> details_calls s ! t = Returned ds"
    by (auto simp: inline_inv_def)
  with assms(2) show ?thesis
    by (auto simp: details_resume_def)
qed

text \<open>
  Claim C10: when the record of a file carries detail entries, then in every
  run the resolver is never called for the file, every call of \<^verbatim>\<open>details\<close>
  is registered, is suspended on those entries or has returned them, and
  returns them when it is resumed.
\<close>

theorem inline_details_never_resolved:
  "details coverage = Some ds \<longrightarrow>
     resolveFileCoverage_calls (details_exec (FileCoverage_new coverage i) es) = [] \<and>
     length (details_calls (details_exec (FileCoverage_new coverage i) es)) =
       length (filter (\<lambda>e. e = CallDetails) es) \<and>
     (\<forall>t < length (details_calls (details_exec (FileCoverage_new coverage i) es)).
        (details_calls (details_exec (FileCoverage_new coverage i) es) ! t = Awaiting (DetailsArray ds) \<or>
         details_calls (details_exec (FileCoverage_new coverage i) es) ! t = Returned ds) \<and>
        details_calls (details_resume t (details_exec (FileCoverage_new coverage i) es)) ! t = Returned ds)"
proof
  assume d: "details coverage = Some ds"
  define s where "s = details_exec (FileCoverage_new coverage i) es"
  have inv: "inline_inv ds s"
    unfolding s_def details_exec_def by (intro inline_inv_exec inline_inv_init d)
  have len: "length (details_calls s) = length (filter (\<lambda>e. e = CallDetails) es)"
    unfolding s_def details_exec_def details_exec_calls_length by (simp add: details_init_def)
  have "details_calls s ! t = Awaiting (DetailsArray ds) \<or> details_calls s ! t = Returned ds"
    if "t < length (details_calls s)" for t
    using inv that by (auto simp: inline_inv_def)
  with inv len show "resolveFileCoverage_calls s = [] \<and>
     length (details_calls s) = length (filter (\<lambda>e. e = CallDetails) es) \<and>
     (\<forall>t < length (details_calls s).
        (details_calls s ! t = Awaiting (DetailsArray ds) \<or> details_calls s ! t = Returned ds) \<and>
        details_calls (details_resume t s) ! t = Returned ds)"
    by (simp add: inline_inv_def inline_inv_returns)
qed

text \<open>
  A run with two calls, the first one resumed.
\<close>

theorem inline_details_never_resolved_witness:
  "details \<lparr> uri = \<lparr> scheme = ''file'', authority = [], path = ''/a.ts'' \<rparr>,
             statement = \<lparr> covered = 1, total = 2 \<rparr>, branch = None, func = None,
             details = Some [CoverageDetails 1, CoverageDetails 2] \<rparr> =
     Some [CoverageDetails 1, CoverageDetails 2] \<and>
   resolveFileCoverage_calls
     (details_exec
        (FileCoverage_new
           \<lparr> uri = \<lparr> scheme = ''file'', authority = [], path = ''/a.ts'' \<rparr>,
             statement = \<lparr> covered = 1, total = 2 \<rparr>, branch = None, func = None,
             details = Some [CoverageDetails 1, CoverageDetails 2] \<rparr> 0)
        [CallDetails, ResumeDetails 0, CallDetails]) = [] \<and>
   details_calls
     (details_exec
        (FileCoverage_new
           \<lparr> uri = \<lparr> scheme = ''file'', authority = [], path = ''/a.ts'' \<rparr>,
             statement = \<lparr> covered = 1, total = 2 \<rparr>, branch = None, func = None,
             details = Some [CoverageDetails 1, CoverageDetails 2] \<rparr> 0)
        [CallDetails, ResumeDetails 0, CallDetails]) =
     [Returned [CoverageDetails 1, CoverageDetails 2],
      Awaiting (DetailsArray [CoverageDetails 1, CoverageDetails 2])] \<and>
   details_calls
     (details_resume 1
        (details_exec
           (FileCoverage_new
              \<lparr> uri = \<lparr> scheme = ''file'', authority = [], path = ''/a.ts'' \<rparr>,
                statement = \<lparr> covered = 1, total = 2 \<rparr>, branch = None, func = None,
                details = Some [CoverageDetails 1, CoverageDetails 2] \<rparr> 0)
           [CallDetails, ResumeDetails 0, CallDetails])) ! 1 =
     Returned [CoverageDetails 1, CoverageDetails 2]"
  using inline_details_never_resolved [of
      "\<lparr> uri = \<lparr> scheme = ''file'', authority = [], path = ''/a.ts'' \<rparr>,
         statement = \<lparr> covered = 1, total = 2 \<rparr>, branch = None, func = None,
         details = Some [CoverageDetails 1, CoverageDetails 2] \<rparr>"
      "[CoverageDetails 1, CoverageDetails 2]" 0
      "[CallDetails, ResumeDetails 0, CallDetails]"]
  by (simp add: details_eval tree_eval)

subsection \<open>Details of a file that are resolved on demand\<close>

lemma first_ok_settle:
  "first_ok (settle k r ps) \<Longrightarrow> first_ok ps"
  by (cases ps; cases k) (auto simp: first_ok_def settle_def split: if_splits promise.splits)

lemma first_ok_append: "ps \<noteq> [] \<Longrightarrow> first_ok (ps @ qs) = first_ok ps"
  by (cases ps) (auto simp: first_ok_def)

lemma settle_eq_Nil [simp]: "settle k r ps = [] \<longleftrightarrow> ps = []"
  by (simp add: settle_def)

lemma lazy_inv_enter:
  assumes "lazy_inv l s"
  shows "lazy_inv l (details_enter s)"
proof (cases "priv_details (leaf s)")
  case (Some d)
  with assms show ?thesis
    by (auto simp: lazy_inv_def details_enter_def)
next
  case None
  show ?thesis
  proof (cases "resolveFileCoverage_promises s = []")
    case True
    with None assms show ?thesis
      by (simp add: lazy_inv_def details_enter_def Let_def first_ok_def)
  next
    case False
    with None assms have "\<not> first_ok (resolveFileCoverage_promises s)"
      by (auto simp: lazy_inv_def)
    with None False assms show ?thesis
      by (simp add: lazy_inv_def details_enter_def Let_def first_ok_append)
  qed
qed

lemma lazy_inv_settle:
  assumes "lazy_inv l s"
  shows "lazy_inv l (s\<lparr> resolveFileCoverage_promises := settle k r (resolveFileCoverage_promises s) \<rparr>)"
proof (cases "resolveFileCoverage_promises s \<noteq> [] \<and> first_ok (resolveFileCoverage_promises s)")
  case False
  with assms first_ok_settle [of k r "resolveFileCoverage_promises s"] show ?thesis
    by (auto simp: lazy_inv_def)
next
  case True
  with assms obtain x where x: "resolveFileCoverage_promises s = [x]"
    by (cases "resolveFileCoverage_promises s") (auto simp: lazy_inv_def)
  have keep: "settle k r [x] = [Fulfilled a]" if "x = Fulfilled a" for a
    using that by (auto simp: settle_def)
  from assms True x keep show ?thesis
    by (auto simp: lazy_inv_def)
qed

lemma lazy_inv_resume:
  assumes "lazy_inv l s"
  shows "lazy_inv l (details_resume t s)"
proof (cases "resolveFileCoverage_promises s \<noteq> [] \<and> first_ok (resolveFileCoverage_promises s)")
  case False
  with assms show ?thesis
    by (auto simp: lazy_inv_def details_resume_def
        split: activation.splits details_slot.splits promise.splits)
next
  case True
  with assms have one: "length (resolveFileCoverage_promises s) = 1"
    by (simp add: lazy_inv_def)
  then obtain r where r: "resolveFileCoverage_promises s = [r]"
    by (cases "resolveFileCoverage_promises s") auto
  with True have nr: "\<And>e. r \<noteq> Rejected e"
    by (auto simp: first_ok_def)
  have entries: "\<forall>c \<in> set (details_calls s).
           c = Awaiting (DetailsPromise 0) \<or> (\<exists>a. c = Returned a \<and> r = Fulfilled a)"
    using assms True r by (simp add: lazy_inv_def)
  have same: "leaf (details_resume t s) = leaf s"
    "resolveFileCoverage_promises (details_resume t s) = resolveFileCoverage_promises s"
    "resolveFileCoverage_calls (details_resume t s) = resolveFileCoverage_calls s"
    using r nr
    by (auto simp: details_resume_def split: activation.splits details_slot.splits promise.splits)
  have ne: "details_calls (details_resume t s) \<noteq> []"
    using assms True details_resume_length [of t s]
    by (metis lazy_inv_def length_0_conv)
  have "c = Awaiting (DetailsPromise 0) \<or> (\<exists>a. c = Returned a \<and> r = Fulfilled a)"
    if c: "c \<in> set (details_calls (details_resume t s))" for c
  proof (cases "t < length (details_calls s)")
    case False
    then have "details_resume t s = s" by (simp add: details_resume_def)
    with c entries show ?thesis by simp
  next
    case True
    then have "details_calls s ! t \<in> set (details_calls s)" by simp
    with entries consider "details_calls s ! t = Awaiting (DetailsPromise 0)"
      | a where "details_calls s ! t = Returned a"
      by blast
    then show ?thesis
    proof cases
      case 1
      show ?thesis
      proof (cases r)
        case Pending
        with 1 True r have "details_resume t s = s" by (simp add: details_resume_def)
        with c entries show ?thesis by simp
      next
        case (Fulfilled a)
        with 1 True r have "details_calls (details_resume t s) = (details_calls s)[t := Returned a]"
          by (simp add: details_resume_def)
        with c have "c \<in> insert (Returned a) (set (details_calls s))"
          using set_update_subset_insert [of "details_calls s" t "Returned a"] by auto
        with entries Fulfilled show ?thesis by auto
      next
        case (Rejected e)
        with nr [of e] show ?thesis by blast
      qed
    next
      case 2
      with True have "details_resume t s = s" by (simp add: details_resume_def)
      with c entries show ?thesis by simp
    qed
  qed
  with assms True same ne r show ?thesis
    by (simp add: lazy_inv_def)
qed

lemma lazy_inv_step: "lazy_inv l s \<Longrightarrow> lazy_inv l (details_step s e)"
  by (cases e) (simp_all add: lazy_inv_enter lazy_inv_settle lazy_inv_resume)

lemma lazy_inv_exec: "lazy_inv l s \<Longrightarrow> lazy_inv l (foldl details_step s es)"
  by (induction es arbitrary: s) (simp_all add: lazy_inv_step)

lemma lazy_inv_init: "priv_details l = None \<Longrightarrow> lazy_inv l (details_init l)"
  by (simp add: lazy_inv_def details_init_def)

lemma details_failure:
  assumes "t < length (details_calls s)"
    and "details_calls s ! t = Awaiting (DetailsPromise p)"
    and "p < length (resolveFileCoverage_promises s)"
    and "resolveFileCoverage_promises s ! p = Rejected e"
  shows "priv_details (leaf (details_resume t s)) = None"
    and "details_calls (details_resume t s) ! t = Threw e"
    and "resolveFileCoverage_calls (details_enter (details_resume t s)) =
           resolveFileCoverage_calls s @ [index (leaf s)]"
    and "resolveFileCoverage_promises (details_enter (details_resume t s)) =
           resolveFileCoverage_promises s @ [Pending]"
  using assms by (simp_all add: details_resume_def details_enter_def Let_def)

text \<open>
  Claim C8, for a file whose record carries no detail entries.  In every run,
  as long as the first promise of the resolver has not been rejected, the
  resolver has been called exactly once if \<^verbatim>\<open>details\<close> was called at all,
  with the index of the file, and every call of \<^verbatim>\<open>details\<close> is suspended on
  that one promise or has returned its value.  A call suspended on a rejected
  promise, when resumed, clears the cache and throws the error of the
  rejection; the next call of \<^verbatim>\<open>details\<close> calls the resolver again.
\<close>

theorem details_shared_and_retried:
  "priv_details l = None \<longrightarrow>
     (first_ok (resolveFileCoverage_promises (details_exec l es)) \<longrightarrow>
        resolveFileCoverage_calls (details_exec l es) =
          (if filter (\<lambda>e. e = CallDetails) es = [] then [] else [index l]) \<and>
        (\<forall>c \<in> set (details_calls (details_exec l es)).
           c = Awaiting (DetailsPromise 0) \<or>
           (\<exists>a. c = Returned a \<and>
                resolveFileCoverage_promises (details_exec l es) = [Fulfilled a]))) \<and>
     (\<forall>t p e.
        t < length (details_calls (details_exec l es)) \<and>
        details_calls (details_exec l es) ! t = Awaiting (DetailsPromise p) \<and>
        p < length (resolveFileCoverage_promises (details_exec l es)) \<and>
        resolveFileCoverage_promises (details_exec l es) ! p = Rejected e \<longrightarrow>
          priv_details (leaf (details_resume t (details_exec l es))) = None \<and>
          details_calls (details_resume t (details_exec l es)) ! t = Threw e \<and>
          resolveFileCoverage_calls (details_enter (details_resume t (details_exec l es))) =
            resolveFileCoverage_calls (details_exec l es) @ [index l])"
proof (intro impI conjI allI)
  assume n: "priv_details l = None"
  define s where "s = details_exec l es"
  have inv: "lazy_inv l s"
    unfolding s_def details_exec_def by (intro lazy_inv_exec lazy_inv_init n)
  have len: "length (details_calls s) = length (filter (\<lambda>e. e = CallDetails) es)"
    unfolding s_def details_exec_def details_exec_calls_length by (simp add: details_init_def)
  {
    assume ok: "first_ok (resolveFileCoverage_promises (details_exec l es))"
    show "resolveFileCoverage_calls (details_exec l es) =
          (if filter (\<lambda>e. e = CallDetails) es = [] then [] else [index l])"
    proof (cases "resolveFileCoverage_promises s = []")
      case True
      with inv len show ?thesis
        unfolding s_def [symmetric] by (simp add: lazy_inv_def)
    next
      case False
      with inv ok len show ?thesis
        unfolding s_def [symmetric] by (auto simp: lazy_inv_def)
    qed
    show "\<forall>c \<in> set (details_calls (details_exec l es)).
           c = Awaiting (DetailsPromise 0) \<or>
           (\<exists>a. c = Returned a \<and>
                resolveFileCoverage_promises (details_exec l es) = [Fulfilled a])"
    proof (cases "resolveFileCoverage_promises s = []")
      case True
      with inv show ?thesis
        unfolding s_def [symmetric] by (simp add: lazy_inv_def)
    next
      case False
      with inv ok show ?thesis
        unfolding s_def [symmetric] by (simp add: lazy_inv_def)
    qed
  }
  fix t p e
  assume a: "t < length (details_calls (details_exec l es)) \<and>
        details_calls (details_exec l es) ! t = Awaiting (DetailsPromise p) \<and>
        p < length (resolveFileCoverage_promises (details_exec l es)) \<and>
        resolveFileCoverage_promises (details_exec l es) ! p = Rejected e"
  have idx: "index (leaf s) = index l" using inv by (simp add: lazy_inv_def)
  from a show "priv_details (leaf (details_resume t (details_exec l es))) = None"
    by (simp add: details_failure)
  from a show "details_calls (details_resume t (details_exec l es)) ! t = Threw e"
    by (simp add: details_failure)
  from a idx show "resolveFileCoverage_calls (details_enter (details_resume t (details_exec l es))) =
            resolveFileCoverage_calls (details_exec l es) @ [index l]"
    unfolding s_def by (simp add: details_failure)
qed

text \<open>
  A run with three calls and one call of the resolver; and a run with two
  calls whose promise is rejected: the second call throws the error, and the
  call after it asks the resolver again.
\<close>

theorem details_shared_and_retried_witness:
  "priv_details (FileCoverage_new
      \<lparr> uri = \<lparr> scheme = ''file'', authority = [], path = ''/a.ts'' \<rparr>,
        statement = \<lparr> covered = 1, total = 2 \<rparr>, branch = None, func = None,
        details = None \<rparr> 0) = None \<and>
   first_ok (resolveFileCoverage_promises
     (details_exec
        (FileCoverage_new
           \<lparr> uri = \<lparr> scheme = ''file'', authority = [], path = ''/a.ts'' \<rparr>,
             statement = \<lparr> covered = 1, total = 2 \<rparr>, branch = None, func = None,
             details = None \<rparr> 0)
        [CallDetails, CallDetails, CallDetails])) \<and>
   resolveFileCoverage_calls
     (details_exec
        (FileCoverage_new
           \<lparr> uri = \<lparr> scheme = ''file'', authority = [], path = ''/a.ts'' \<rparr>,
             statement = \<lparr> covered = 1, total = 2 \<rparr>, branch = None, func = None,
             details = None \<rparr> 0)
        [CallDetails, CallDetails, CallDetails]) = [0] \<and>
   details_calls
     (details_exec
        (FileCoverage_new
           \<lparr> uri = \<lparr> scheme = ''file'', authority = [], path = ''/a.ts'' \<rparr>,
             statement = \<lparr> covered = 1, total = 2 \<rparr>, branch = None, func = None,
             details = None \<rparr> 0)
        [CallDetails, CallDetails, ResolverRejects 0 ''cancelled'']) ! 1 =
     Awaiting (DetailsPromise 0) \<and>
   resolveFileCoverage_promises
     (details_exec
        (FileCoverage_new
           \<lparr> uri = \<lparr> scheme = ''file'', authority = [], path = ''/a.ts'' \<rparr>,
             statement = \<lparr> covered = 1, total = 2 \<rparr>, branch = None, func = None,
             details = None \<rparr> 0)
        [CallDetails, CallDetails, ResolverRejects 0 ''cancelled'']) ! 0 =
     Rejected ''cancelled'' \<and>
   priv_details (leaf (details_resume 1
     (details_exec
        (FileCoverage_new
           \<lparr> uri = \<lparr> scheme = ''file'', authority = [], path = ''/a.ts'' \<rparr>,
             statement = \<lparr> covered = 1, total = 2 \<rparr>, branch = None, func = None,
             details = None \<rparr> 0)
        [CallDetails, CallDetails, ResolverRejects 0 ''cancelled'']))) = None \<and>
   details_calls (details_resume 1
     (details_exec
        (FileCoverage_new
           \<lparr> uri = \<lparr> scheme = ''file'', authority = [], path = ''/a.ts'' \<rparr>,
             statement = \<lparr> covered = 1, total = 2 \<rparr>, branch = None, func = None,
             details = None \<rparr> 0)
        [CallDetails, CallDetails, ResolverRejects 0 ''cancelled''])) ! 1 = Threw ''cancelled'' \<and>
   resolveFileCoverage_calls (details_enter (details_resume 1
     (details_exec
        (FileCoverage_new
           \<lparr> uri = \<lparr> scheme = ''file'', authority = [], path = ''/a.ts'' \<rparr>,
             statement = \<lparr> covered = 1, total = 2 \<rparr>, branch = None, func = None,
             details = None \<rparr> 0)
        [CallDetails, CallDetails, ResolverRejects 0 ''cancelled'']))) = [0, 0]"
  using
    details_shared_and_retried [of
      "FileCoverage_new
         \<lparr> uri = \<lparr> scheme = ''file'', authority = [], path = ''/a.ts'' \<rparr>,
           statement = \<lparr> covered = 1, total = 2 \<rparr>, branch = None, func = None,
           details = None \<rparr> 0"
      "[CallDetails, CallDetails, CallDetails]"]
    details_shared_and_retried [of
      "FileCoverage_new
         \<lparr> uri = \<lparr> scheme = ''file'', authority = [], path = ''/a.ts'' \<rparr>,
           statement = \<lparr> covered = 1, total = 2 \<rparr>, branch = None, func = None,
           details = None \<rparr> 0"
      "[CallDetails, CallDetails, ResolverRejects 0 ''cancelled'']"]
  by (simp add: details_eval tree_eval first_ok_def)

subsection \<open>The files of a run\<close>

lemma getAllFiles_resume_length [simp]:
  "length (getAllFiles_calls (getAllFiles_resume t s)) = length (getAllFiles_calls s)"
  by (simp add: getAllFiles_resume_def split: activation.splits promise.splits)

lemma session_step_calls_length:
  "length (getAllFiles_calls (session_step s e)) =
     length (getAllFiles_calls s) + (if e = CallGetAllFiles then 1 else 0)"
  by (cases e)
     (simp_all add: getAllFiles_enter_def createFileCoverage_resume_def Let_def
        split: option.splits promise.splits)

lemma session_exec_calls_length:
  "length (getAllFiles_calls (foldl session_step s es)) =
     length (getAllFiles_calls s) + length (filter (\<lambda>e. e = CallGetAllFiles) es)"
  by (induction es arbitrary: s) (simp_all add: session_step_calls_length)

lemma session_inv_init: "session_inv session_init"
  by (simp add: session_inv_def session_init_def)

lemma session_inv_enter:
  assumes "session_inv s"
  shows "session_inv (getAllFiles_enter s)"
proof (cases "fileCoverage s")
  case (Some q)
  with assms show ?thesis
    by (auto simp: session_inv_def getAllFiles_enter_def)
next
  case None
  show ?thesis
  proof (cases "createFileCoverage_promises s = []")
    case True
    with None assms show ?thesis
      by (simp add: session_inv_def getAllFiles_enter_def Let_def first_ok_def built_from_def)
  next
    case False
    with None assms have "\<not> first_ok (createFileCoverage_promises s)"
      by (auto simp: session_inv_def)
    with None False assms show ?thesis
      by (auto simp: session_inv_def getAllFiles_enter_def Let_def first_ok_append nth_append
          built_from_def)
  qed
qed

lemma built_from_settle:
  assumes "built_from (ps ! k) cr" "k < length ps"
  shows "built_from (settle j r ps ! k) cr"
  using assms by (cases cr) (auto simp: built_from_def settle_nth split: promise.splits)

lemma session_inv_settle:
  assumes "session_inv s"
  shows "session_inv (s\<lparr> provideFileCoverage_promises := settle k r (provideFileCoverage_promises s) \<rparr>)"
  using assms by (auto simp: session_inv_def built_from_settle)

lemma first_ok_update:
  assumes "k < length ps" "ps ! k = Pending" "first_ok (ps[k := r])"
  shows "first_ok ps"
  using assms by (cases ps; cases k) (auto simp: first_ok_def split: promise.splits)

lemma session_inv_create:
  assumes "session_inv s"
  shows "session_inv (createFileCoverage_resume k s)"
proof (cases "k < length (createFileCoverage_promises s) \<and>
         k < length (provideFileCoverage_promises s) \<and>
         createFileCoverage_promises s ! k = Pending \<and>
         provideFileCoverage_promises s ! k \<noteq> Pending")
  case False
  with assms show ?thesis
    by (auto simp: createFileCoverage_resume_def split: promise.splits)
next
  case True
  define r where "r = (case provideFileCoverage_promises s ! k of
      Fulfilled files \<Rightarrow> Fulfilled (createFileCoverage files) | Rejected e \<Rightarrow> Rejected e
    | Pending \<Rightarrow> Pending)"
  have step: "createFileCoverage_resume k s =
      s\<lparr> createFileCoverage_promises := (createFileCoverage_promises s)[k := r] \<rparr>"
    using True by (auto simp: createFileCoverage_resume_def r_def split: promise.splits)
  have bf: "built_from (provideFileCoverage_promises s ! k) r"
    using True by (auto simp: built_from_def r_def split: promise.splits)
  have pend: "createFileCoverage_promises s ! k = Pending" using True by simp
  have kl: "k < length (createFileCoverage_promises s)" using True by simp
  have a: "length (provideFileCoverage_promises s) = length (createFileCoverage_promises s)"
    using assms by (simp add: session_inv_def)
  have d: "built_from (provideFileCoverage_promises s ! j) ((createFileCoverage_promises s)[k := r] ! j)"
    if "j < length (createFileCoverage_promises s)" for j
    using that assms bf by (cases "j = k") (auto simp: session_inv_def)
  have c: "length (createFileCoverage_promises s) = 1 \<and>
        fileCoverage s = Some 0 \<and> getAllFiles_calls s \<noteq> [] \<and>
        (\<forall>c \<in> set (getAllFiles_calls s).
           c = Awaiting 0 \<or>
           (\<exists>tree. c = Returned tree \<and>
              (createFileCoverage_promises s)[k := r] = [Fulfilled tree]))"
    if ok: "first_ok ((createFileCoverage_promises s)[k := r])"
  proof -
    from first_ok_update [OF kl pend ok] kl assms
    have f: "length (createFileCoverage_promises s) = 1" "fileCoverage s = Some 0"
      "getAllFiles_calls s \<noteq> []"
      "\<forall>c \<in> set (getAllFiles_calls s).
           c = Awaiting 0 \<or>
           (\<exists>tree. c = Returned tree \<and> createFileCoverage_promises s = [Fulfilled tree])"
      by (auto simp: session_inv_def)
    have "c = Awaiting 0 \<or>
           (\<exists>tree. c = Returned tree \<and>
              (createFileCoverage_promises s)[k := r] = [Fulfilled tree])"
      if "c \<in> set (getAllFiles_calls s)" for c
    proof -
      from f(4) that consider "c = Awaiting 0"
        | tree where "c = Returned tree" "createFileCoverage_promises s = [Fulfilled tree]"
        by blast
      then show ?thesis
      proof cases
        case 1
        then show ?thesis by simp
      next
        case 2
        with kl pend show ?thesis by simp
      qed
    qed
    with f show ?thesis by simp
  qed
  show ?thesis
    unfolding step session_inv_def using a kl c d by auto
qed

lemma session_inv_resume:
  assumes "session_inv s"
  shows "session_inv (getAllFiles_resume t s)"
proof (cases "createFileCoverage_promises s \<noteq> [] \<and> first_ok (createFileCoverage_promises s)")
  case False
  with assms show ?thesis
    by (auto simp: session_inv_def getAllFiles_resume_def
        split: activation.splits promise.splits)
next
  case True
  with assms have one: "length (createFileCoverage_promises s) = 1"
    by (simp add: session_inv_def)
  then obtain r where r: "createFileCoverage_promises s = [r]"
    by (cases "createFileCoverage_promises s") auto
  with True have nr: "\<And>e. r \<noteq> Rejected e"
    by (auto simp: first_ok_def)
  have same: "fileCoverage (getAllFiles_resume t s) = fileCoverage s"
    "createFileCoverage_promises (getAllFiles_resume t s) = createFileCoverage_promises s"
    "provideFileCoverage_promises (getAllFiles_resume t s) = provideFileCoverage_promises s"
    using r nr
    by (auto simp: getAllFiles_resume_def split: activation.splits promise.splits)
  have ne: "getAllFiles_calls (getAllFiles_resume t s) \<noteq> []"
    using assms True getAllFiles_resume_length [of t s]
    by (metis session_inv_def length_0_conv)
  have entries: "\<forall>c \<in> set (getAllFiles_calls s).
           c = Awaiting 0 \<or> (\<exists>tree. c = Returned tree \<and> r = Fulfilled tree)"
    using assms True r by (simp add: session_inv_def)
  have "c = Awaiting 0 \<or> (\<exists>tree. c = Returned tree \<and> r = Fulfilled tree)"
    if c: "c \<in> set (getAllFiles_calls (getAllFiles_resume t s))" for c
  proof (cases "t < length (getAllFiles_calls s)")
    case False
    then have "getAllFiles_resume t s = s" by (simp add: getAllFiles_resume_def)
    with c entries show ?thesis by simp
  next
    case True
    then have "getAllFiles_calls s ! t \<in> set (getAllFiles_calls s)" by simp
    with entries consider "getAllFiles_calls s ! t = Awaiting 0"
      | tree where "getAllFiles_calls s ! t = Returned tree"
      by blast
    then show ?thesis
    proof cases
      case 1
      show ?thesis
      proof (cases r)
        case Pending
        with 1 True r have "getAllFiles_resume t s = s" by (simp add: getAllFiles_resume_def)
        with c entries show ?thesis by simp
      next
        case (Fulfilled tree)
        with 1 True r
        have "getAllFiles_calls (getAllFiles_resume t s) = (getAllFiles_calls s)[t := Returned tree]"
          by (simp add: getAllFiles_resume_def)
        with c have "c \<in> insert (Returned tree) (set (getAllFiles_calls s))"
          using set_update_subset_insert [of "getAllFiles_calls s" t "Returned tree"] by auto
        with entries Fulfilled show ?thesis by auto
      next
        case (Rejected e)
        with nr [of e] show ?thesis by blast
      qed
    next
      case 2
      with True have "getAllFiles_resume t s = s" by (simp add: getAllFiles_resume_def)
      with c entries show ?thesis by simp
    qed
  qed
  with assms True same ne r show ?thesis
    by (simp add: session_inv_def)
qed

lemma session_inv_step: "session_inv s \<Longrightarrow> session_inv (session_step s e)"
  by (cases e) (simp_all add: session_inv_enter session_inv_settle session_inv_create session_inv_resume)

lemma session_inv_exec: "session_inv s \<Longrightarrow> session_inv (foldl session_step s es)"
  by (induction es arbitrary: s) (simp_all add: session_inv_step)

lemma getAllFiles_failure:
  assumes "t < length (getAllFiles_calls s)"
    and "getAllFiles_calls s ! t = Awaiting q"
    and "q < length (createFileCoverage_promises s)"
    and "createFileCoverage_promises s ! q = Rejected e"
  shows "fileCoverage (getAllFiles_resume t s) = None"
    and "getAllFiles_calls (getAllFiles_resume t s) ! t = Threw e"
    and "provideFileCoverage_promises (getAllFiles_enter (getAllFiles_resume t s)) =
           provideFileCoverage_promises s @ [Pending]"
    and "fileCoverage (getAllFiles_enter (getAllFiles_resume t s)) =
           Some (length (createFileCoverage_promises s))"
  using assms by (simp_all add: getAllFiles_resume_def getAllFiles_enter_def Let_def)

lemmas session_eval = session_exec_def session_init_def getAllFiles_enter_def getAllFiles_resume_def
  createFileCoverage_resume_def settle_def first_ok_def

text \<open>
  Claim C7.  In every run, as long as the first promise of
  \<^verbatim>\<open>createFileCoverage\<close> has not been rejected, the provider has been called
  exactly once if \<^verbatim>\<open>getAllFiles\<close> was called at all, and every call of
  \<^verbatim>\<open>getAllFiles\<close> is suspended on that one promise or has returned its
  value, the tree built from the provider's files.  A call suspended on a
  rejected promise, when resumed, clears the field and throws the error, which
  is the provider's; the next call of \<^verbatim>\<open>getAllFiles\<close> calls the provider
  again.
\<close>

theorem getAllFiles_cached_until_failure:
  "(first_ok (createFileCoverage_promises (session_exec es)) \<longrightarrow>
      length (provideFileCoverage_promises (session_exec es)) =
        (if filter (\<lambda>e. e = CallGetAllFiles) es = [] then 0 else 1) \<and>
      (\<forall>c \<in> set (getAllFiles_calls (session_exec es)).
         c = Awaiting 0 \<or>
         (\<exists>tree files. c = Returned tree \<and>
            createFileCoverage_promises (session_exec es) = [Fulfilled tree] \<and>
            provideFileCoverage_promises (session_exec es) = [Fulfilled files] \<and>
            tree = createFileCoverage files))) \<and>
   (\<forall>t q e.
      t < length (getAllFiles_calls (session_exec es)) \<and>
      getAllFiles_calls (session_exec es) ! t = Awaiting q \<and>
      q < length (createFileCoverage_promises (session_exec es)) \<and>
      createFileCoverage_promises (session_exec es) ! q = Rejected e \<longrightarrow>
        provideFileCoverage_promises (session_exec es) ! q = Rejected e \<and>
        fileCoverage (getAllFiles_resume t (session_exec es)) = None \<and>
        getAllFiles_calls (getAllFiles_resume t (session_exec es)) ! t = Threw e \<and>
        provideFileCoverage_promises (getAllFiles_enter (getAllFiles_resume t (session_exec es))) =
          provideFileCoverage_promises (session_exec es) @ [Pending])"
proof -
  define s where "s = session_exec es"
  have inv: "session_inv s"
    unfolding s_def session_exec_def by (intro session_inv_exec session_inv_init)
  have len: "length (getAllFiles_calls s) = length (filter (\<lambda>e. e = CallGetAllFiles) es)"
    unfolding s_def session_exec_def session_exec_calls_length by (simp add: session_init_def)
  have eq: "length (provideFileCoverage_promises s) = length (createFileCoverage_promises s)"
    using inv by (simp add: session_inv_def)
  have A: "length (provideFileCoverage_promises s) =
        (if filter (\<lambda>e. e = CallGetAllFiles) es = [] then 0 else 1) \<and>
      (\<forall>c \<in> set (getAllFiles_calls s).
         c = Awaiting 0 \<or>
         (\<exists>tree files. c = Returned tree \<and>
            createFileCoverage_promises s = [Fulfilled tree] \<and>
            provideFileCoverage_promises s = [Fulfilled files] \<and>
            tree = createFileCoverage files))"
    if ok: "first_ok (createFileCoverage_promises s)"
  proof (cases "createFileCoverage_promises s = []")
    case True
    with inv len show ?thesis by (auto simp: session_inv_def)
  next
    case False
    with inv ok have one: "length (createFileCoverage_promises s) = 1"
      and calls: "getAllFiles_calls s \<noteq> []"
      and entries: "\<forall>c \<in> set (getAllFiles_calls s).
           c = Awaiting 0 \<or>
           (\<exists>tree. c = Returned tree \<and> createFileCoverage_promises s = [Fulfilled tree])"
      and built: "built_from (provideFileCoverage_promises s ! 0) (createFileCoverage_promises s ! 0)"
      by (auto simp: session_inv_def)
    from one eq obtain pr where pr: "provideFileCoverage_promises s = [pr]"
      by (cases "provideFileCoverage_promises s") auto
    have "\<exists>files. provideFileCoverage_promises s = [Fulfilled files] \<and>
            tree = createFileCoverage files"
      if "createFileCoverage_promises s = [Fulfilled tree]" for tree
      using built that pr by (auto simp: built_from_def split: promise.splits)
    with entries have "\<forall>c \<in> set (getAllFiles_calls s).
         c = Awaiting 0 \<or>
         (\<exists>tree files. c = Returned tree \<and>
            createFileCoverage_promises s = [Fulfilled tree] \<and>
            provideFileCoverage_promises s = [Fulfilled files] \<and>
            tree = createFileCoverage files)"
      by blast
    moreover from calls len one eq
    have "length (provideFileCoverage_promises s) =
        (if filter (\<lambda>e. e = CallGetAllFiles) es = [] then 0 else 1)"
      by auto
    ultimately show ?thesis by simp
  qed
  have B: "provideFileCoverage_promises s ! q = Rejected e \<and>
        fileCoverage (getAllFiles_resume t s) = None \<and>
        getAllFiles_calls (getAllFiles_resume t s) ! t = Threw e \<and>
        provideFileCoverage_promises (getAllFiles_enter (getAllFiles_resume t s)) =
          provideFileCoverage_promises s @ [Pending]"
    if a: "t < length (getAllFiles_calls s) \<and>
      getAllFiles_calls s ! t = Awaiting q \<and>
      q < length (createFileCoverage_promises s) \<and>
      createFileCoverage_promises s ! q = Rejected e" for t q e
  proof -
    from inv a have "built_from (provideFileCoverage_promises s ! q) (createFileCoverage_promises s ! q)"
      unfolding session_inv_def by blast
    with a have "provideFileCoverage_promises s ! q = Rejected e"
      by (simp add: built_from_def)
    with a show ?thesis by (simp add: getAllFiles_failure)
  qed
  from A B show ?thesis unfolding s_def by blast
qed

text \<open>
  A run with three calls sharing one tree, one of them made after the tree
  was built; and a run with two calls whose provider fails: the second call
  throws the error, and the call after it asks the provider again.
\<close>

theorem getAllFiles_cached_until_failure_witness:
  "first_ok (createFileCoverage_promises
     (session_exec
        [CallGetAllFiles, CallGetAllFiles, ProviderFulfils 0
           [\<lparr> uri = \<lparr> scheme = ''file'', authority = [], path = ''/a.ts'' \<rparr>,
              statement = \<lparr> covered = 1, total = 2 \<rparr>, branch = None, func = None,
              details = None \<rparr>], ResumeCreateFileCoverage 0,
         ResumeGetAllFiles 0, CallGetAllFiles, ResumeGetAllFiles 2, ResumeGetAllFiles 1])) \<and>
   length (provideFileCoverage_promises
     (session_exec
        [CallGetAllFiles, CallGetAllFiles, ProviderFulfils 0
           [\<lparr> uri = \<lparr> scheme = ''file'', authority = [], path = ''/a.ts'' \<rparr>,
              statement = \<lparr> covered = 1, total = 2 \<rparr>, branch = None, func = None,
              details = None \<rparr>], ResumeCreateFileCoverage 0,
         ResumeGetAllFiles 0, CallGetAllFiles, ResumeGetAllFiles 2, ResumeGetAllFiles 1])) = 1 \<and>
   getAllFiles_calls
     (session_exec
        [CallGetAllFiles, CallGetAllFiles, ProviderFulfils 0
           [\<lparr> uri = \<lparr> scheme = ''file'', authority = [], path = ''/a.ts'' \<rparr>,
              statement = \<lparr> covered = 1, total = 2 \<rparr>, branch = None, func = None,
              details = None \<rparr>], ResumeCreateFileCoverage 0,
         ResumeGetAllFiles 0, CallGetAllFiles, ResumeGetAllFiles 2, ResumeGetAllFiles 1]) =
     [Returned (createFileCoverage
           [\<lparr> uri = \<lparr> scheme = ''file'', authority = [], path = ''/a.ts'' \<rparr>,
              statement = \<lparr> covered = 1, total = 2 \<rparr>, branch = None, func = None,
              details = None \<rparr>]), Returned (createFileCoverage
           [\<lparr> uri = \<lparr> scheme = ''file'', authority = [], path = ''/a.ts'' \<rparr>,
              statement = \<lparr> covered = 1, total = 2 \<rparr>, branch = None, func = None,
              details = None \<rparr>]),
      Returned (createFileCoverage
           [\<lparr> uri = \<lparr> scheme = ''file'', authority = [], path = ''/a.ts'' \<rparr>,
              statement = \<lparr> covered = 1, total = 2 \<rparr>, branch = None, func = None,
              details = None \<rparr>])] \<and>
   getAllFiles_calls
     (session_exec
        [CallGetAllFiles, CallGetAllFiles, ProviderRejects 0 ''cancelled'',
         ResumeCreateFileCoverage 0]) ! 1 = Awaiting 0 \<and>
   createFileCoverage_promises
     (session_exec
        [CallGetAllFiles, CallGetAllFiles, ProviderRejects 0 ''cancelled'',
         ResumeCreateFileCoverage 0]) ! 0 = Rejected ''cancelled'' \<and>
   fileCoverage (getAllFiles_resume 1
     (session_exec
        [CallGetAllFiles, CallGetAllFiles, ProviderRejects 0 ''cancelled'',
         ResumeCreateFileCoverage 0])) = None \<and>
   getAllFiles_calls (getAllFiles_resume 1
     (session_exec
        [CallGetAllFiles, CallGetAllFiles, ProviderRejects 0 ''cancelled'',
         ResumeCreateFileCoverage 0])) ! 1 = Threw ''cancelled'' \<and>
   provideFileCoverage_promises (getAllFiles_enter (getAllFiles_resume 1
     (session_exec
        [CallGetAllFiles, CallGetAllFiles, ProviderRejects 0 ''cancelled'',
         ResumeCreateFileCoverage 0]))) = [Rejected ''cancelled'', Pending]"
  using
    getAllFiles_cached_until_failure [of
      "[CallGetAllFiles, CallGetAllFiles, ProviderFulfils 0
           [\<lparr> uri = \<lparr> scheme = ''file'', authority = [], path = ''/a.ts'' \<rparr>,
              statement = \<lparr> covered = 1, total = 2 \<rparr>, branch = None, func = None,
              details = None \<rparr>], ResumeCreateFileCoverage 0,
         ResumeGetAllFiles 0, CallGetAllFiles, ResumeGetAllFiles 2, ResumeGetAllFiles 1]"]
    getAllFiles_cached_until_failure [of
      "[CallGetAllFiles, CallGetAllFiles, ProviderRejects 0 ''cancelled'',
         ResumeCreateFileCoverage 0]"]
  by (simp add: session_eval)

end
